theory Spec2Isabelle
  imports Complex_Main "HOL-Library.AList"
begin

section \<open>Python values used by the MLST code\<close>

text \<open>
  The exceptions the modelled code can raise. A function that can raise returns
  \<open>py_error + 'a\<close>, with \<open>Inl\<close> for the exception.
\<close>

datatype py_error = IndexError | KeyError | ValueError | TypeError

text \<open>
  A Python \<open>dict\<close> keeps its keys in insertion order, and assigning to an existing
  key keeps the key's position: an association list with \<open>AList.update\<close> for
  \<open>d[k] = v\<close> and \<open>map_of\<close> for \<open>d[k]\<close> and \<open>k in d\<close>.
\<close>

type_synonym ('k, 'v) dict = "('k \<times> 'v) list"

subsection \<open>Strings\<close>

text \<open>
  Strings are lists of 8-bit characters; the allele databases and BLAST identifiers
  this code reads are ASCII text.
\<close>

definition is_space :: "char \<Rightarrow> bool" where
  \<comment> \<open>the ASCII characters for which Python's \<open>str.isspace\<close> holds\<close>
  "is_space c = (c \<in> set [CHR 0x09, CHR 0x0A, CHR 0x0B, CHR 0x0C, CHR 0x0D,
                            CHR 0x1C, CHR 0x1D, CHR 0x1E, CHR 0x1F, CHR 0x20])"

definition is_digit :: "char \<Rightarrow> bool" where
  "is_digit c = (c \<in> set ''0123456789'')"

definition rstrip :: "string \<Rightarrow> string" where
  \<comment> \<open>\<open>s.rstrip()\<close>\<close>
  "rstrip s = rev (dropWhile is_space (rev s))"

definition strip :: "string \<Rightarrow> string" where
  \<comment> \<open>\<open>s.strip()\<close>\<close>
  "strip s = dropWhile is_space (rstrip s)"

fun cons_first :: "char \<Rightarrow> string list \<Rightarrow> string list" where
  "cons_first c [] = [[c]]"
| "cons_first c (f # fs) = (c # f) # fs"

fun split_on :: "char \<Rightarrow> string \<Rightarrow> string list" where
  \<comment> \<open>\<open>s.split(c)\<close> for a one-character separator\<close>
  "split_on c [] = [[]]"
| "split_on c (x # xs) =
     (if x = c then [] # split_on c xs else cons_first x (split_on c xs))"

fun split_dunder :: "string \<Rightarrow> string list" where
  \<comment> \<open>\<open>s.split('__')\<close>: leftmost, non-overlapping occurrences\<close>
  "split_dunder (x # y # xs) =
     (if x = CHR ''_'' \<and> y = CHR ''_'' then [] # split_dunder xs
      else cons_first x (split_dunder (y # xs)))"
| "split_dunder [x] = [[x]]"
| "split_dunder [] = [[]]"

fun dunder_in :: "string \<Rightarrow> bool" where
  \<comment> \<open>\<open>'__' in s\<close>\<close>
  "dunder_in (x # y # xs) = ((x = CHR ''_'' \<and> y = CHR ''_'') \<or> dunder_in (y # xs))"
| "dunder_in _ = False"

fun join_comma :: "string list \<Rightarrow> string" where
  \<comment> \<open>\<open>','.join(fields)\<close>\<close>
  "join_comma [] = []"
| "join_comma [f] = f"
| "join_comma (f # g # fs) = f @ CHR '','' # join_comma (g # fs)"

function re_sub_trunc :: "string \<Rightarrow> string" where
  \<comment> \<open>\<open>re.sub(r'-\d+%', '', s)\<close>: a hyphen, the longest run of digits after it (at
      least one) and a percent sign are removed; scanning goes on after the match\<close>
  "re_sub_trunc [] = []"
| "re_sub_trunc (c # cs) =
     (if c = CHR ''-'' then
        (case dropWhile is_digit cs of
           [] \<Rightarrow> c # re_sub_trunc cs
         | p # rest \<Rightarrow>
             if p = CHR ''%'' \<and> takeWhile is_digit cs \<noteq> [] then re_sub_trunc rest
             else c # re_sub_trunc cs)
      else c # re_sub_trunc cs)"
  by pat_completeness auto
termination
proof (relation "measure length")
  fix c :: char and cs :: string and p :: char and rest :: string
  assume "dropWhile is_digit cs = p # rest"
  then have "length (p # rest) \<le> length cs"
    by (metis length_dropWhile_le)
  then show "(rest, c # cs) \<in> measure length" by simp
qed simp_all

subsection \<open>Integers from and to strings\<close>

definition digit_val :: "char \<Rightarrow> int" where
  "digit_val c = int (of_char c) - 48"

definition digits_ok :: "string \<Rightarrow> bool" where
  \<comment> \<open>decimal digits, single underscores allowed between digits (Python 3.6 and later)\<close>
  "digits_ok s = (s \<noteq> [] \<and> (\<forall>c \<in> set s. is_digit c \<or> c = CHR ''_'')
      \<and> is_digit (hd s) \<and> is_digit (last s)
      \<and> (\<forall>i < length s - 1. \<not> (s ! i = CHR ''_'' \<and> s ! Suc i = CHR ''_'')))"

definition digits_value :: "string \<Rightarrow> int" where
  "digits_value s = foldl (\<lambda>n c. 10 * n + digit_val c) 0 (filter is_digit s)"

definition py_int :: "string \<Rightarrow> py_error + int" where
  \<comment> \<open>\<open>int(s)\<close> for a string: surrounding whitespace is ignored, then an optional
      sign and the digits; anything else raises ValueError\<close>
  "py_int s =
     (case strip s of
        [] \<Rightarrow> Inl ValueError
      | c # cs \<Rightarrow>
          if c = CHR ''-'' then
            (if digits_ok cs then Inr (- digits_value cs) else Inl ValueError)
          else if c = CHR ''+'' then
            (if digits_ok cs then Inr (digits_value cs) else Inl ValueError)
          else if digits_ok (c # cs) then Inr (digits_value (c # cs))
          else Inl ValueError)"

definition digit_char :: "nat \<Rightarrow> char" where
  "digit_char d = char_of (48 + d)"

function str_nat :: "nat \<Rightarrow> string" where
  "str_nat n = (if n < 10 then [digit_char n] else str_nat (n div 10) @ [digit_char (n mod 10)])"
  by pat_completeness auto
termination
  by (relation "measure id") auto

declare str_nat.simps [simp del]

definition py_str :: "int \<Rightarrow> string" where
  \<comment> \<open>\<open>str(n)\<close> for an integer\<close>
  "py_str n = (if n < 0 then CHR ''-'' # str_nat (nat (- n)) else str_nat (nat n))"

section \<open>Alignment hits\<close>

text \<open>
  The hits are produced by \<open>run_blastn\<close>, which is outside this development: the
  model takes its result as an input. Only the fields read by the MLST code are kept.
  Percent identity and score are compared, never computed with, so they are modelled
  as real numbers.
\<close>

record hit =
  gene_id :: string
  pcid :: real
  alignment_length :: int
  ref_length :: int
  score :: real

definition get_allele_and_locus :: "hit \<Rightarrow> py_error + (string \<times> string)" where
  \<comment> \<open>returns \<open>(allele, locus)\<close>\<close>
  "get_allele_and_locus h =
     (if dunder_in (gene_id h) then
        (case split_dunder (gene_id h) of
           _ # locus # allele # _ \<Rightarrow> Inr (allele, locus)
         | _ \<Rightarrow> Inl IndexError)
      else
        (case split_on CHR ''_'' (gene_id h) of
           locus # _ \<Rightarrow> Inr (gene_id h, locus)
         | [] \<Rightarrow> Inl IndexError))"

subsection \<open>Hit Reducer\<close>

fun append_hit :: "string \<Rightarrow> hit \<Rightarrow> (string, hit list) dict \<Rightarrow> (string, hit list) dict" where
  \<comment> \<open>\<open>hits_per_locus[locus].append(hit)\<close> on a \<open>defaultdict(list)\<close>\<close>
  "append_hit l h [] = [(l, [h])]"
| "append_hit l h ((k, hs) # d) =
     (if k = l then (k, hs @ [h]) # d else (k, hs) # append_hit l h d)"

fun group_hits :: "hit list \<Rightarrow> (string, hit list) dict \<Rightarrow> py_error + (string, hit list) dict" where
  "group_hits [] d = Inr d"
| "group_hits (h # hs) d =
     (case get_allele_and_locus h of
        Inl e \<Rightarrow> Inl e
      | Inr (_, locus) \<Rightarrow> group_hits hs (append_hit locus h d))"

definition sorted_best_first :: "hit list \<Rightarrow> hit list" where
  \<comment> \<open>\<open>sorted(locus_hits, key=lambda x: x.score, reverse=True)\<close>: Python's sort is
      stable also when reversed, so hits of equal score keep their order\<close>
  "sorted_best_first hs = sort_key (\<lambda>h. - score h) hs"

fun best_hits :: "(string, hit list) dict \<Rightarrow> py_error + hit list" where
  "best_hits [] = Inr []"
| "best_hits ((locus, locus_hits) # d) =
     (case sorted_best_first locus_hits of
        [] \<Rightarrow> Inl IndexError
      | best_hit # _ \<Rightarrow>
          (case best_hits d of Inl e \<Rightarrow> Inl e | Inr kept \<Rightarrow> Inr (best_hit # kept)))"

definition keep_only_one_hit_per_locus :: "hit list \<Rightarrow> py_error + hit list" where
  "keep_only_one_hit_per_locus hits =
     (case group_hits hits [] of Inl e \<Rightarrow> Inl e | Inr d \<Rightarrow> best_hits d)"

subsection \<open>Allele Resolver\<close>

text \<open>
  \<open>truncation_check\<close> is defined in \<open>truncation.py\<close> with five required positional
  parameters (\<open>nucl_seq, strand, ref_start, ref_end, ref_length\<close>) and returns a
  string. The resolver calls it as \<open>truncation_check(hit)[0]\<close>, with one argument.
  Python binds the arguments of a call before the body runs and raises TypeError when
  a required parameter is left without a value, so this call raises TypeError for
  every hit.
\<close>

definition allele_number :: "string \<Rightarrow> py_error + string" where
  \<comment> \<open>\<open>allele.split('_')[1]\<close>\<close>
  "allele_number allele =
     (case split_on CHR ''_'' allele of
        _ # n # _ \<Rightarrow> Inr n
      | _ \<Rightarrow> Inl IndexError)"

definition inexact :: "hit \<Rightarrow> bool" where
  "inexact h = (pcid h < 100 \<or> alignment_length h < ref_length h)"

definition annotate :: "bool \<Rightarrow> hit \<Rightarrow> string \<Rightarrow> py_error + string" where
  \<comment> \<open>lines 138 to 141: the allele name with its markers appended\<close>
  "annotate check_for_truncation h allele =
     (let allele1 = (if inexact h then allele @ ''*'' else allele) in
      if check_for_truncation then Inl TypeError else Inr allele1)"

type_synonym resolver_state = "(string, real) dict \<times> (string, string) dict"

definition resolve_hit :: "bool \<Rightarrow> hit \<Rightarrow> resolver_state \<Rightarrow> py_error + resolver_state" where
  "resolve_hit check_for_truncation h st =
     (case st of (best_score, best_allele) \<Rightarrow>
      case get_allele_and_locus h of
        Inl e \<Rightarrow> Inl e
      | Inr (allele0, locus) \<Rightarrow>
     (case annotate check_for_truncation h allele0 of
        Inl e \<Rightarrow> Inl e
      | Inr allele \<Rightarrow>
     (case map_of best_score locus of
        Some s \<Rightarrow>
          if score h > s then
            (case allele_number allele of
               Inl e \<Rightarrow> Inl e
             | Inr n \<Rightarrow> Inr (AList.update locus (score h) best_score,
                             AList.update locus n best_allele))
          else Inr (best_score, best_allele)
      | None \<Rightarrow>
          (case allele_number allele of
             Inl e \<Rightarrow> Inl e
           | Inr n \<Rightarrow> Inr (AList.update locus (score h) best_score,
                           AList.update locus n best_allele)))))"

fun resolve_hits :: "bool \<Rightarrow> hit list \<Rightarrow> resolver_state \<Rightarrow> py_error + resolver_state" where
  "resolve_hits c [] st = Inr st"
| "resolve_hits c (h # hs) st =
     (case resolve_hit c h st of Inl e \<Rightarrow> Inl e | Inr st' \<Rightarrow> resolve_hits c hs st')"

definition get_best_allele_per_locus :: "hit list \<Rightarrow> bool \<Rightarrow> py_error + (string, string) dict" where
  "get_best_allele_per_locus hits check_for_truncation =
     (case resolve_hits check_for_truncation hits ([], []) of
        Inl e \<Rightarrow> Inl e
      | Inr (best_score, best_allele) \<Rightarrow> Inr best_allele)"

section \<open>ST Database\<close>

type_synonym st_database =
  "string list \<times> (string, string) dict \<times> (string, string) dict \<times> string list"

definition load_line :: "string \<Rightarrow> string \<Rightarrow> st_database \<Rightarrow> py_error + st_database" where
  \<comment> \<open>the body of the loop over the lines of the file; \<open>pop\<close> on an empty list
      raises IndexError\<close>
  "load_line info_arg line db =
     (case db of (st_names, alleles_to_st, st_to_info, header) \<Rightarrow>
      case split_on CHR 0x09 (rstrip line) of
        [] \<Rightarrow> Inl IndexError
      | f # cells \<Rightarrow>
          if length header = 0 then
            (if info_arg = ''yes'' then
               (if cells = [] then Inl IndexError
                else Inr (st_names, alleles_to_st, st_to_info, butlast cells))
             else Inr (st_names, alleles_to_st, st_to_info, cells))
          else
            (if info_arg = ''yes'' then
               (if cells = [] then Inl IndexError
                else Inr (st_names @ [f],
                          AList.update (join_comma (butlast cells)) f alleles_to_st,
                          AList.update f (last cells) st_to_info,
                          header))
             else Inr (st_names @ [f],
                       AList.update (join_comma cells) f alleles_to_st,
                       st_to_info,
                       header)))"

fun load_lines :: "string \<Rightarrow> string list \<Rightarrow> st_database \<Rightarrow> py_error + st_database" where
  "load_lines info_arg [] db = Inr db"
| "load_lines info_arg (line # rest) db =
     (case load_line info_arg line db of
        Inl e \<Rightarrow> Inl e
      | Inr db' \<Rightarrow> load_lines info_arg rest db')"

definition load_st_database :: "string list \<Rightarrow> string \<Rightarrow> py_error + st_database" where
  \<comment> \<open>the database file is given as the list of its lines\<close>
  "load_st_database database info_arg = load_lines info_arg database ([], [], [], [])"

section \<open>ST Matcher\<close>

fun mismatches :: "string list \<Rightarrow> string list \<Rightarrow> py_error + nat" where
  \<comment> \<open>\<open>sum(map(lambda x, y: bool(int(x)-int(y)), xs, ys))\<close>: \<open>map\<close> stops at the end
      of the shorter list\<close>
  "mismatches (x # xs) (y # ys) =
     (case py_int x of
        Inl e \<Rightarrow> Inl e
      | Inr a \<Rightarrow>
     (case py_int y of
        Inl e \<Rightarrow> Inl e
      | Inr b \<Rightarrow>
     (case mismatches xs ys of
        Inl e \<Rightarrow> Inl e
      | Inr n \<Rightarrow> Inr ((if a - b \<noteq> 0 then 1 else 0) + n))))"
| "mismatches _ _ = Inr 0"

type_synonym closest_state = "int list \<times> (string, string) dict \<times> nat"

fun closest_loop :: "(string, string) dict \<Rightarrow> string list \<Rightarrow> closest_state \<Rightarrow> py_error + closest_state" where
  \<comment> \<open>the loop \<open>for st in sts\<close>; the state is \<open>(closest, closest_alleles, min_dist)\<close>\<close>
  "closest_loop [] query s = Inr s"
| "closest_loop ((st, st_id) # rest) query (closest, closest_alleles, min_dist) =
     (case mismatches (split_on CHR '','' st) query of
        Inl e \<Rightarrow> Inl e
      | Inr d \<Rightarrow>
          if d = min_dist then
            (case py_int st_id of
               Inl e \<Rightarrow> Inl e
             | Inr k \<Rightarrow> closest_loop rest query
                 (closest @ [k], AList.update st_id st closest_alleles, min_dist))
          else if d < min_dist then
            (case py_int st_id of
               Inl e \<Rightarrow> Inl e
             | Inr k \<Rightarrow> closest_loop rest query
                 ([k], AList.update st_id st closest_alleles, d))
          else closest_loop rest query (closest, closest_alleles, min_dist))"

definition zero_missing :: "string \<Rightarrow> string" where
  \<comment> \<open>lines 186 to 188\<close>
  "zero_missing item = (if item = ''-'' then ''0'' else item)"

definition zero_inexact :: "string \<Rightarrow> string" where
  \<comment> \<open>lines 204 to 207\<close>
  "zero_inexact item =
     (if item = ''-'' \<or> CHR ''*'' \<in> set item then ''0'' else re_sub_trunc item)"

definition get_closest_locus_variant ::
  "string list \<Rightarrow> string list \<Rightarrow> (string, string) dict \<Rightarrow> py_error + (string \<times> nat \<times> nat)" where
  "get_closest_locus_variant query annotated_query sts =
     (case closest_loop sts (map zero_missing query) ([], [], length query) of
        Inl e \<Rightarrow> Inl e
      | Inr (closest, closest_alleles, min_dist) \<Rightarrow>
          if closest = [] then Inl ValueError
          else
            (let closest_st = py_str (Min (set closest)) in
             case map_of closest_alleles closest_st of
               None \<Rightarrow> Inl KeyError
             | Some profile \<Rightarrow>
                 (case mismatches (split_on CHR '','' profile) (map zero_inexact annotated_query) of
                    Inl e \<Rightarrow> Inl e
                  | Inr min_dist_incl_snps \<Rightarrow> Inr (closest_st, min_dist, min_dist_incl_snps))))"

text \<open>
  Lines 49 to 70 of \<open>mlst_blast\<close>: the calls in header order, with the two counters.
  The result is \<open>(best_st, best_st_annotated, mismatch_loci_including_snps, missing_loci)\<close>.
  The source appends in a loop; the recursion below builds the same lists and sums.
\<close>

fun collect_calls :: "(string, string) dict \<Rightarrow> string list \<Rightarrow> string list \<times> string list \<times> int \<times> int" where
  "collect_calls best_allele [] = ([], [], 0, 0)"
| "collect_calls best_allele (locus # header) =
     (case collect_calls best_allele header of (best_st, best_st_annotated, mismatch, missing) \<Rightarrow>
      case map_of best_allele locus of
        Some allele \<Rightarrow>
          (re_sub_trunc (filter (\<lambda>c. c \<noteq> CHR ''*'') allele) # best_st,
           allele # best_st_annotated,
           (if CHR ''*'' \<in> set allele then mismatch + 1 else mismatch),
           missing)
      | None \<Rightarrow> (''-'' # best_st, ''-'' # best_st_annotated, mismatch + 1, missing + 1))"

definition lookup_st ::
  "(string, string) dict \<Rightarrow> string list \<Rightarrow> string list \<Rightarrow> int \<Rightarrow> int \<Rightarrow> py_error + (string \<times> int)" where
  \<comment> \<open>lines 73 to 86: gate 1, exact lookup, nearest-variant search; the result is
      \<open>(bst, mismatch_loci_including_snps)\<close>\<close>
  "lookup_st alleles_to_st best_st best_st_annotated mismatch max_missing =
     (if mismatch \<le> max_missing then
        (case map_of alleles_to_st (join_comma best_st) of
           Some st \<Rightarrow> Inr (st, mismatch)
         | None \<Rightarrow>
             (case get_closest_locus_variant best_st best_st_annotated alleles_to_st of
                Inl e \<Rightarrow> Inl e
              | Inr (st, _, m) \<Rightarrow> Inr (st, int m)))
      else Inr (''0'', mismatch))"

definition required_exact_matches :: "string list \<Rightarrow> int" where
  \<comment> \<open>\<open>int(len(header) / 2)\<close>: the quotient is a float and \<open>int\<close> truncates it, which
      is the integer quotient for every length a list can have\<close>
  "required_exact_matches header = int (length header div 2)"

definition gate2 :: "string list \<Rightarrow> string list \<Rightarrow> string \<Rightarrow> int \<Rightarrow> string" where
  \<comment> \<open>lines 88 to 90\<close>
  "gate2 header best_st bst mismatch =
     (if int (length best_st) - mismatch < required_exact_matches header then ''0'' else bst)"

definition pull_info :: "string \<Rightarrow> (string, string) dict \<Rightarrow> bool \<Rightarrow> int \<Rightarrow> string \<Rightarrow> string" where
  \<comment> \<open>lines 93 to 97\<close>
  "pull_info info_arg st_to_info report_incomplete missing bst =
     (if info_arg = ''yes'' then
        (case map_of st_to_info bst of
           Some info \<Rightarrow> if report_incomplete \<and> missing > 0 then info @ '' (incomplete)'' else info
         | None \<Rightarrow> '''')
      else '''')"

definition lv_label :: "string \<Rightarrow> int \<Rightarrow> string" where
  \<comment> \<open>lines 99 to 100\<close>
  "lv_label bst mismatch =
     (if mismatch > 0 \<and> bst \<noteq> ''0'' then bst @ ''-'' @ py_str mismatch @ ''LV'' else bst)"

definition match_st ::
  "st_database \<Rightarrow> string \<Rightarrow> (string, string) dict \<Rightarrow> int \<Rightarrow> bool
     \<Rightarrow> py_error + (string \<times> string list \<times> string)" where
  \<comment> \<open>lines 49 to 102 of \<open>mlst_blast\<close>\<close>
  "match_st db info_arg best_allele max_missing report_incomplete =
     (case db of (st_names, alleles_to_st, st_to_info, header) \<Rightarrow>
      case collect_calls best_allele header of (best_st, best_st_annotated, mismatch, missing) \<Rightarrow>
      case lookup_st alleles_to_st best_st best_st_annotated mismatch max_missing of
        Inl e \<Rightarrow> Inl e
      | Inr (bst, mismatch') \<Rightarrow>
          (let bst' = gate2 header best_st bst mismatch' in
           Inr (lv_label bst' mismatch', best_st_annotated,
                pull_info info_arg st_to_info report_incomplete missing bst')))"

section \<open>Orchestrator\<close>

definition mlst_blast ::
  "string list \<Rightarrow> string \<Rightarrow> string list \<Rightarrow> hit list \<Rightarrow> int \<Rightarrow> bool \<Rightarrow> bool \<Rightarrow> bool
     \<Rightarrow> py_error + (string \<times> string list \<times> string)" where
  \<comment> \<open>\<open>database\<close> is the list of lines of the profile file and \<open>hits\<close> is
      what \<open>run_blastn(seqs, contigs, min_cov, min_ident)\<close> returned\<close>
  "mlst_blast database info_arg assemblies hits max_missing
       check_for_truncation report_incomplete allow_multiple =
     (case load_st_database database info_arg of
        Inl e \<Rightarrow> Inl e
      | Inr db \<Rightarrow>
     (case assemblies of
        [] \<Rightarrow> Inl IndexError
      | contigs # _ \<Rightarrow>
     (case (if \<not> allow_multiple then keep_only_one_hit_per_locus hits else Inr hits) of
        Inl e \<Rightarrow> Inl e
      | Inr hits' \<Rightarrow>
     (case get_best_allele_per_locus hits' check_for_truncation of
        Inl e \<Rightarrow> Inl e
      | Inr best_allele \<Rightarrow>
          match_st db info_arg best_allele max_missing report_incomplete))))"

section \<open>Notions used in the statements\<close>

text \<open>
  Predicates over the definitions above: the branch conditions of the resolver, the
  first hit of maximum score of a locus, the invariants of the two loops over the
  hits, and what makes a lookup table and a call readable by the distance
  computation.
\<close>

definition beats_best :: "hit \<Rightarrow> string \<Rightarrow> (string, real) dict \<Rightarrow> bool" where
  \<comment> \<open>the test of lines 143 to 149 for storing a hit's allele: its locus has no
      best score yet, or its score is strictly above it\<close>
  "beats_best h locus best_score =
     (case map_of best_score locus of None \<Rightarrow> True | Some s \<Rightarrow> score h > s)"

definition locus_of :: "hit \<Rightarrow> string" where
  \<comment> \<open>the locus \<open>get_allele_and_locus\<close> returns for a hit\<close>
  "locus_of h = (case get_allele_and_locus h of Inl _ \<Rightarrow> [] | Inr (_, locus) \<Rightarrow> locus)"

definition call_of :: "bool \<Rightarrow> hit \<Rightarrow> py_error + string" where
  \<comment> \<open>the call lines 137 to 149 store for a hit, when they store it\<close>
  "call_of c h =
     (case get_allele_and_locus h of
        Inl e \<Rightarrow> Inl e
      | Inr (allele0, _) \<Rightarrow>
          (case annotate c h allele0 of Inl e \<Rightarrow> Inl e | Inr allele \<Rightarrow> allele_number allele))"

definition hits_of :: "string \<Rightarrow> hit list \<Rightarrow> hit list" where
  "hits_of l xs = filter (\<lambda>h. locus_of h = l) xs"

fun first_best :: "hit list \<Rightarrow> hit option" where
  \<comment> \<open>the first hit of maximum score, in input order\<close>
  "first_best [] = None"
| "first_best (h # hs) =
     (case first_best hs of
        None \<Rightarrow> Some h
      | Some b \<Rightarrow> if score h < score b then Some b else Some h)"

definition best_inv :: "bool \<Rightarrow> hit list \<Rightarrow> resolver_state \<Rightarrow> bool" where
  \<comment> \<open>the resolver's state after the hits \<open>xs\<close>: per locus, the score and the call of
      the first hit of maximum score\<close>
  "best_inv c xs st =
     (\<forall>l. case first_best (hits_of l xs) of
             None \<Rightarrow> map_of (fst st) l = None \<and> map_of (snd st) l = None
           | Some b \<Rightarrow> map_of (fst st) l = Some (score b)
                        \<and> (\<exists>n. call_of c b = Inr n \<and> map_of (snd st) l = Some n))"

definition groups_inv :: "hit list \<Rightarrow> (string, hit list) dict \<Rightarrow> bool" where
  \<comment> \<open>\<open>hits_per_locus\<close> after the hits \<open>xs\<close>: one entry per locus seen, holding the
      hits of that locus in input order\<close>
  "groups_inv xs d =
     (distinct (map fst d) \<and>
      (\<forall>l. map_of d l = (if hits_of l xs = [] then None else Some (hits_of l xs))))"

definition parses :: "string \<Rightarrow> bool" where
  \<comment> \<open>\<open>int(s)\<close> returns\<close>
  "parses s = (case py_int s of Inl _ \<Rightarrow> False | Inr _ \<Rightarrow> True)"

definition canonical_id :: "string \<Rightarrow> bool" where
  \<comment> \<open>\<open>str(int(s)) == s\<close>: a decimal numeral with no sign, space or leading zero\<close>
  "canonical_id s = (case py_int s of Inl _ \<Rightarrow> False | Inr k \<Rightarrow> py_str k = s)"

definition well_formed_table :: "(string, string) dict \<Rightarrow> bool" where
  \<comment> \<open>at least one profile; every allele of a profile is an integer, every ST id canonical\<close>
  "well_formed_table sts =
     (sts \<noteq> [] \<and> list_all (\<lambda>(p, s). list_all parses (split_on CHR '','' p) \<and> canonical_id s) sts)"

definition numeric_call :: "string \<Rightarrow> bool" where
  \<comment> \<open>a stored call whose number both distance computations can read\<close>
  "numeric_call a =
     (parses (zero_missing (re_sub_trunc (filter (\<lambda>c. c \<noteq> CHR ''*'') a))) \<and> parses (zero_inexact a))"

section \<open>Concrete inputs\<close>

text \<open>
  A profile file is a tab-separated table. \<open>tsv_line\<close> writes one line of it, and
  the hits below stand for an exact and an inexact BLAST match of a reference allele.
\<close>

fun tsv_line :: "string list \<Rightarrow> string" where
  "tsv_line [] = [CHR 0x0A]"
| "tsv_line [c] = c @ [CHR 0x0A]"
| "tsv_line (c # d # cs) = c @ CHR 0x09 # tsv_line (d # cs)"

definition exact_hit :: "string \<Rightarrow> real \<Rightarrow> hit" where
  "exact_hit g s = \<lparr>gene_id = g, pcid = 100, alignment_length = 500, ref_length = 500, score = s\<rparr>"

definition inexact_hit :: "string \<Rightarrow> real \<Rightarrow> hit" where
  "inexact_hit g s = \<lparr>gene_id = g, pcid = 99, alignment_length = 500, ref_length = 500, score = s\<rparr>"

definition ex_db :: "string list" where
  "ex_db = [tsv_line [''ST'', ''gapA'', ''infB'', ''mdh'', ''CG''],
            tsv_line [''10'', ''1'', ''2'', ''3'', ''CG10''],
            tsv_line [''11'', ''1'', ''2'', ''4'', ''CG11'']]"

definition zero_db :: "string list" where
  "zero_db = [tsv_line [''ST'', ''gapA'', ''CG''],
              tsv_line [''0'', ''1'', ''CG0'']]"

definition dup_db :: "string list" where
  "dup_db = [tsv_line [''ST'', ''gapA''], tsv_line [''1'', ''5''], tsv_line [''2'', ''5'']]"

section \<open>How the stages compose\<close>

lemma length_collect_calls:
  "collect_calls ba header = (best_st, ann, mm, missing) \<Longrightarrow>
     length best_st = length header \<and> length ann = length header"
  by (induction header arbitrary: best_st ann mm missing)
     (auto split: prod.splits option.splits)

lemma match_st_eq:
  assumes "collect_calls best_allele header = (best_st, annotated, mismatch, missing)"
    and "lookup_st alleles_to_st best_st annotated mismatch max_missing = Inr (bst, mismatch')"
  shows "match_st (st_names, alleles_to_st, st_to_info, header) info_arg best_allele
           max_missing report_incomplete
         = Inr (lv_label (gate2 header best_st bst mismatch') mismatch', annotated,
                pull_info info_arg st_to_info report_incomplete missing
                  (gate2 header best_st bst mismatch'))"
  using assms by (simp add: match_st_def Let_def)

lemma mlst_blast_eq:
  assumes "load_st_database database info_arg = Inr db"
    and "assemblies \<noteq> []"
    and "(if \<not> allow_multiple then keep_only_one_hit_per_locus hits else Inr hits) = Inr hits'"
    and "get_best_allele_per_locus hits' check_for_truncation = Inr best_allele"
  shows "mlst_blast database info_arg assemblies hits max_missing
            check_for_truncation report_incomplete allow_multiple
         = match_st db info_arg best_allele max_missing report_incomplete"
proof -
  obtain c cs where a: "assemblies = c # cs"
    using assms(2) by (cases assemblies) auto
  show ?thesis
    using assms(1,3,4) a by (simp add: mlst_blast_def)
qed

section \<open>Acceptance gate 1\<close>

text \<open>
  C1. When the number of loci that are missing or carry an inexact call, as counted
  by lines 54 to 70, is above \<open>max_missing\<close>, lines 75 to 86 assign \<open>"0"\<close> whatever the
  lookup table holds (no exact lookup and no nearest-variant search runs, so none of
  their errors can occur), and the label \<open>mlst_blast\<close> returns is \<open>"0"\<close>, with no
  locus-variant suffix.
\<close>

theorem gate1_assigns_zero:
  assumes "load_st_database database info_arg = Inr (st_names, alleles_to_st, st_to_info, header)"
    and "assemblies \<noteq> []"
    and "(if \<not> allow_multiple then keep_only_one_hit_per_locus hits else Inr hits) = Inr hits'"
    and "get_best_allele_per_locus hits' check_for_truncation = Inr best_allele"
    and "collect_calls best_allele header = (best_st, annotated, mismatch, missing)"
    and "max_missing < mismatch"
  shows "lookup_st sts best_st annotated mismatch max_missing = Inr (''0'', mismatch)
       \<and> mlst_blast database info_arg assemblies hits max_missing
            check_for_truncation report_incomplete allow_multiple
          = Inr (''0'', annotated, pull_info info_arg st_to_info report_incomplete missing ''0'')"
proof -
  have l: "lookup_st sts best_st annotated mismatch max_missing = Inr (''0'', mismatch)" for sts
    using assms(6) by (simp add: lookup_st_def)
  have "match_st (st_names, alleles_to_st, st_to_info, header) info_arg best_allele
             max_missing report_incomplete
           = Inr (''0'', annotated, pull_info info_arg st_to_info report_incomplete missing ''0'')"
    using match_st_eq [OF assms(5) l] by (simp add: gate2_def lv_label_def)
  then show ?thesis
    using l mlst_blast_eq [OF assms(1-4)] by simp
qed

theorem gate1_assigns_zero_witness:
  "mlst_blast ex_db ''yes'' [''a.fasta''] [exact_hit ''gapA_1'' 900] 1 False False False
     = Inr (''0'', [''1'', ''-'', ''-''], [])"
proof -
  have 1: "load_st_database ex_db ''yes'' = Inr ([''10'', ''11''], [(''1,2,3'', ''10''), (''1,2,4'', ''11'')],
        [(''10'', ''CG10''), (''11'', ''CG11'')], [''gapA'', ''infB'', ''mdh''])"
    by code_simp
  have 2: "[''a.fasta''] \<noteq> ([] :: string list)" by simp
  have 3: "(if \<not> False then keep_only_one_hit_per_locus [exact_hit ''gapA_1'' 900]
            else Inr [exact_hit ''gapA_1'' 900]) = Inr [exact_hit ''gapA_1'' 900]"
    by code_simp
  have 4: "get_best_allele_per_locus [exact_hit ''gapA_1'' 900] False = Inr [(''gapA'', ''1'')]"
    by code_simp
  have 5: "collect_calls [(''gapA'', ''1'')] [''gapA'', ''infB'', ''mdh'']
             = ([''1'', ''-'', ''-''], [''1'', ''-'', ''-''], 2, 2)"
    by code_simp
  have 6: "(1::int) < 2" by simp
  have 7: "pull_info ''yes'' [(''10'', ''CG10''), (''11'', ''CG11'')] False 2 ''0'' = []"
    by code_simp
  show ?thesis
    using gate1_assigns_zero [OF 1 2 3 4 5 6, of "[]" False] 7 by simp
qed

section \<open>Acceptance gate 2\<close>

text \<open>
  C2. With \<open>exact_matches\<close> the number of loci minus the mismatch count that lines 73
  to 86 leave (the recomputed one when the nearest-variant search ran), a value below
  half the number of loci, rounded down, makes the returned label \<open>"0"\<close>. The example
  shows the override of an exact match: three inexact calls hit the registered profile
  of ST 10, and the label is still \<open>"0"\<close>.
\<close>

theorem gate2_forces_zero:
  assumes "load_st_database database info_arg = Inr (st_names, alleles_to_st, st_to_info, header)"
    and "assemblies \<noteq> []"
    and "(if \<not> allow_multiple then keep_only_one_hit_per_locus hits else Inr hits) = Inr hits'"
    and "get_best_allele_per_locus hits' check_for_truncation = Inr best_allele"
    and "collect_calls best_allele header = (best_st, annotated, mismatch, missing)"
    and "lookup_st alleles_to_st best_st annotated mismatch max_missing = Inr (bst, mismatch')"
    and "int (length header) - mismatch' < int (length header div 2)"
  shows "mlst_blast database info_arg assemblies hits max_missing
            check_for_truncation report_incomplete allow_multiple
          = Inr (''0'', annotated, pull_info info_arg st_to_info report_incomplete missing ''0'')"
proof -
  have len: "length best_st = length header"
    using length_collect_calls [OF assms(5)] by simp
  have g: "gate2 header best_st bst mismatch' = ''0''"
    using assms(7) len by (simp add: gate2_def required_exact_matches_def)
  show ?thesis
    using mlst_blast_eq [OF assms(1-4)] match_st_eq [OF assms(5,6)] g
    by (simp add: lv_label_def)
qed

theorem gate2_forces_zero_witness:
  "lookup_st [(''1,2,3'', ''10''), (''1,2,4'', ''11'')] [''1'', ''2'', ''3''] [''1*'', ''2*'', ''3*''] 3 3
     = Inr (''10'', 3)
   \<and> mlst_blast ex_db ''yes'' [''a.fasta'']
        [inexact_hit ''gapA_1'' 900, inexact_hit ''infB_2'' 900, inexact_hit ''mdh_3'' 900]
        3 False False True
     = Inr (''0'', [''1*'', ''2*'', ''3*''], [])"
proof -
  let ?hits = "[inexact_hit ''gapA_1'' 900, inexact_hit ''infB_2'' 900, inexact_hit ''mdh_3'' 900]"
  have 1: "load_st_database ex_db ''yes'' = Inr ([''10'', ''11''], [(''1,2,3'', ''10''), (''1,2,4'', ''11'')],
        [(''10'', ''CG10''), (''11'', ''CG11'')], [''gapA'', ''infB'', ''mdh''])"
    by code_simp
  have 2: "[''a.fasta''] \<noteq> ([] :: string list)" by simp
  have 3: "(if \<not> True then keep_only_one_hit_per_locus ?hits else Inr ?hits) = Inr ?hits"
    by simp
  have 4: "get_best_allele_per_locus ?hits False
             = Inr [(''gapA'', ''1*''), (''infB'', ''2*''), (''mdh'', ''3*'')]"
    by code_simp
  have 5: "collect_calls [(''gapA'', ''1*''), (''infB'', ''2*''), (''mdh'', ''3*'')] [''gapA'', ''infB'', ''mdh'']
             = ([''1'', ''2'', ''3''], [''1*'', ''2*'', ''3*''], 3, 0)"
    by code_simp
  have 6: "lookup_st [(''1,2,3'', ''10''), (''1,2,4'', ''11'')] [''1'', ''2'', ''3''] [''1*'', ''2*'', ''3*''] 3 3
     = Inr (''10'', 3)"
    by code_simp
  have 7: "int (length [''gapA'', ''infB'', ''mdh'']) - 3 < int (length [''gapA'', ''infB'', ''mdh''] div 2)"
    by simp
  have 8: "pull_info ''yes'' [(''10'', ''CG10''), (''11'', ''CG11'')] False 0 ''0'' = []"
    by code_simp
  show ?thesis
    using gate2_forces_zero [OF 1 2 3 4 5 6 7, of False] 6 8 by simp
qed

section \<open>Truncation checking\<close>

text \<open>
  C7. The claim is that the resolver appends the truncation tag to each call. The
  code does not get that far: with truncation checking on, the first hit already
  raises, because \<open>truncation_check\<close> is called with one argument.
\<close>

theorem truncation_check_call_raises:
  "get_best_allele_per_locus (h # hs) True
     = (case get_allele_and_locus h of Inl e \<Rightarrow> Inl e | Inr al \<Rightarrow> Inl TypeError)
   \<and> get_best_allele_per_locus [exact_hit ''gapA_1'' 900] True = Inl TypeError"
proof -
  have "get_best_allele_per_locus (h # hs) True
     = (case get_allele_and_locus h of Inl e \<Rightarrow> Inl e | Inr al \<Rightarrow> Inl TypeError)" for h hs
    by (simp add: get_best_allele_per_locus_def resolve_hit_def annotate_def Let_def
             split: sum.splits prod.splits)
  moreover have "get_allele_and_locus (exact_hit ''gapA_1'' 900) = Inr (''gapA_1'', ''gapA'')"
    by code_simp
  ultimately show ?thesis by simp
qed

section \<open>Info lookup\<close>

text \<open>
  Against C8 as stated. The lookup of lines 93 to 97 tests whether the assigned ST is
  a key of \<open>st_to_info\<close>; it does not test for \<open>"0"\<close>. A
  profile file that lists an ST 0 gives its annotation to an assembly with no hit at
  all.
\<close>

theorem info_for_st_zero_counterexample:
  "mlst_blast zero_db ''yes'' [''a.fasta''] [] 0 False False False
     = Inr (''0'', [''-''], ''CG0'')
   \<and> mlst_blast zero_db ''yes'' [''a.fasta''] [exact_hit ''gapA_1'' 900] 0 False False False
     = Inr (''0'', [''1''], ''CG0'')"
  by code_simp

lemma lv_label_zero: "lv_label bst m = ''0'' \<Longrightarrow> bst = ''0''"
  by (auto simp: lv_label_def split: if_splits)

text \<open>
  C8, as amended. A non-empty info string is returned only when the info column is
  configured and the assigned ST (the label without its locus-variant suffix) is a
  key of the info table, so it is not \<open>"0"\<close> unless the profile file lists an ST 0; the
  string is that ST's annotation, with \<open>" (incomplete)"\<close> appended exactly when
  \<open>missing_loci > 0\<close> and incomplete-reporting is requested.
\<close>

theorem info_only_for_registered_st:
  assumes "load_st_database database info_arg = Inr (st_names, alleles_to_st, st_to_info, header)"
    and "assemblies \<noteq> []"
    and "(if \<not> allow_multiple then keep_only_one_hit_per_locus hits else Inr hits) = Inr hits'"
    and "get_best_allele_per_locus hits' check_for_truncation = Inr best_allele"
    and "collect_calls best_allele header = (best_st, annotated, mismatch, missing)"
    and "mlst_blast database info_arg assemblies hits max_missing
            check_for_truncation report_incomplete allow_multiple = Inr (label, calls, info)"
    and "info \<noteq> []"
  shows "info_arg = ''yes'' \<and>
         (\<exists>bst m text. label = lv_label bst m \<and> map_of st_to_info bst = Some text \<and>
            info = (if report_incomplete \<and> 0 < missing then text @ '' (incomplete)'' else text) \<and>
            (map_of st_to_info ''0'' = None \<longrightarrow> bst \<noteq> ''0'' \<and> label \<noteq> ''0''))"
proof -
  have m: "match_st (st_names, alleles_to_st, st_to_info, header) info_arg best_allele
             max_missing report_incomplete = Inr (label, calls, info)"
    using mlst_blast_eq [OF assms(1-4)] assms(6) by simp
  then obtain bst m where l: "lookup_st alleles_to_st best_st annotated mismatch max_missing = Inr (bst, m)"
    using assms(5) by (auto simp: match_st_def split: sum.splits)
  define b where "b = gate2 header best_st bst m"
  have lab: "label = lv_label b m" and inf: "info = pull_info info_arg st_to_info report_incomplete missing b"
    using match_st_eq [OF assms(5) l] m by (simp_all add: b_def)
  have yes: "info_arg = ''yes''"
    using inf assms(7) by (auto simp: pull_info_def split: if_splits)
  obtain note_text where t: "map_of st_to_info b = Some note_text"
    and i: "info = (if report_incomplete \<and> 0 < missing then note_text @ '' (incomplete)'' else note_text)"
    using inf assms(7) yes by (auto simp: pull_info_def split: option.splits)
  have z: "map_of st_to_info ''0'' = None \<longrightarrow> b \<noteq> ''0'' \<and> label \<noteq> ''0''"
    using t lab lv_label_zero by fastforce
  have "label = lv_label b m \<and> map_of st_to_info b = Some note_text \<and>
        info = (if report_incomplete \<and> 0 < missing then note_text @ '' (incomplete)'' else note_text) \<and>
        (map_of st_to_info ''0'' = None \<longrightarrow> b \<noteq> ''0'' \<and> label \<noteq> ''0'')"
    using lab t i z by (intro conjI)
  then have "\<exists>bst m text. label = lv_label bst m \<and> map_of st_to_info bst = Some text \<and>
        info = (if report_incomplete \<and> 0 < missing then text @ '' (incomplete)'' else text) \<and>
        (map_of st_to_info ''0'' = None \<longrightarrow> bst \<noteq> ''0'' \<and> label \<noteq> ''0'')"
    by - (rule exI [of _ b], rule exI [of _ m], rule exI [of _ note_text], assumption)
  with yes show ?thesis ..
qed

theorem info_only_for_registered_st_witness:
  "mlst_blast ex_db ''yes'' [''a.fasta''] [exact_hit ''gapA_1'' 900, exact_hit ''infB_2'' 900]
      3 False True False = Inr (''10-1LV'', [''1'', ''2'', ''-''], ''CG10 (incomplete)'')
   \<and> (\<exists>bst m text. ''10-1LV'' = lv_label bst m \<and>
         map_of [(''10'', ''CG10''), (''11'', ''CG11'')] bst = Some text \<and>
         ''CG10 (incomplete)'' = text @ '' (incomplete)'' \<and> bst \<noteq> ''0'')"
proof -
  let ?hits = "[exact_hit ''gapA_1'' 900, exact_hit ''infB_2'' 900]"
  have 1: "load_st_database ex_db ''yes'' = Inr ([''10'', ''11''], [(''1,2,3'', ''10''), (''1,2,4'', ''11'')],
        [(''10'', ''CG10''), (''11'', ''CG11'')], [''gapA'', ''infB'', ''mdh''])"
    by code_simp
  have 2: "[''a.fasta''] \<noteq> ([] :: string list)" by simp
  have 3: "(if \<not> False then keep_only_one_hit_per_locus ?hits else Inr ?hits) = Inr ?hits"
    by code_simp
  have 4: "get_best_allele_per_locus ?hits False = Inr [(''gapA'', ''1''), (''infB'', ''2'')]"
    by code_simp
  have 5: "collect_calls [(''gapA'', ''1''), (''infB'', ''2'')] [''gapA'', ''infB'', ''mdh'']
             = ([''1'', ''2'', ''-''], [''1'', ''2'', ''-''], 1, 1)"
    by code_simp
  have 6: "mlst_blast ex_db ''yes'' [''a.fasta''] ?hits 3 False True False
             = Inr (''10-1LV'', [''1'', ''2'', ''-''], ''CG10 (incomplete)'')"
    by code_simp
  have 7: "''CG10 (incomplete)'' \<noteq> []" by simp
  have 8: "map_of [(''10'', ''CG10''), (''11'', ''CG11'')] ''0'' = None" by simp
  show ?thesis
    using info_only_for_registered_st [OF 1 2 3 4 5 6 7] 6 8 by auto
qed

section \<open>The recorded allele call\<close>

lemma resolve_hits_append:
  "resolve_hits c (xs @ ys) st =
     (case resolve_hits c xs st of Inl e \<Rightarrow> Inl e | Inr st' \<Rightarrow> resolve_hits c ys st')"
  by (induction xs arbitrary: st) (auto split: sum.splits)

lemma split_on_absent: "c \<notin> set s \<Longrightarrow> split_on c s = [s]"
  by (induction s) auto

lemma allele_number_no_underscore:
  "CHR ''_'' \<notin> set allele \<Longrightarrow> allele_number allele = Inl IndexError"
  by (simp add: allele_number_def split_on_absent)

text \<open>
  Against C10 as stated. The split of line 146 or 149 runs only for a hit that is
  stored. A hit whose name has no underscore, coming after a better hit of its locus,
  is passed over and raises nothing.
\<close>

theorem shadowed_hit_counterexample:
  "get_allele_and_locus (exact_hit ''gapA'' 800) = Inr (''gapA'', ''gapA'')
   \<and> CHR ''_'' \<notin> set ''gapA''
   \<and> get_best_allele_per_locus [exact_hit ''gapA_1'' 900, exact_hit ''gapA'' 800] False
       = Inr [(''gapA'', ''1'')]"
  by code_simp

text \<open>
  C10, as amended. With truncation checking off, for a hit that is the first of its
  locus or scores strictly above the best so far, the resolver records the second
  underscore-separated field of the allele name with its \<open>*\<close> marker appended, and it
  raises an index error when the allele name has no underscore; a hit that does not
  beat the best of its locus leaves the state as it is, whatever its name.
\<close>

theorem allele_call_second_field:
  assumes "get_allele_and_locus h = Inr (allele, locus)"
    and "resolve_hits False before ([], []) = Inr (best_score, best_allele)"
  shows "(beats_best h locus best_score \<longrightarrow>
            (\<forall>n. allele_number (if inexact h then allele @ ''*'' else allele) = Inr n \<longrightarrow>
               resolve_hit False h (best_score, best_allele)
                 = Inr (AList.update locus (score h) best_score, AList.update locus n best_allele))
            \<and> (CHR ''_'' \<notin> set allele \<longrightarrow>
                 get_best_allele_per_locus (before @ h # rest) False = Inl IndexError))
       \<and> (\<not> beats_best h locus best_score \<longrightarrow>
            resolve_hit False h (best_score, best_allele) = Inr (best_score, best_allele))"
proof (intro conjI impI allI)
  fix n
  assume "beats_best h locus best_score"
    and "allele_number (if inexact h then allele @ ''*'' else allele) = Inr n"
  then show "resolve_hit False h (best_score, best_allele)
      = Inr (AList.update locus (score h) best_score, AList.update locus n best_allele)"
    using assms(1)
    by (auto simp: resolve_hit_def annotate_def beats_best_def Let_def split: option.splits)
next
  assume b: "beats_best h locus best_score" and u: "CHR ''_'' \<notin> set allele"
  have "CHR ''_'' \<notin> set (if inexact h then allele @ ''*'' else allele)"
    using u by simp
  then have "allele_number (if inexact h then allele @ ''*'' else allele) = Inl IndexError"
    by (rule allele_number_no_underscore)
  then have "resolve_hit False h (best_score, best_allele) = Inl IndexError"
    using assms(1) b
    by (auto simp: resolve_hit_def annotate_def beats_best_def Let_def split: option.splits)
  then show "get_best_allele_per_locus (before @ h # rest) False = Inl IndexError"
    using assms(2) by (simp add: get_best_allele_per_locus_def resolve_hits_append)
next
  assume "\<not> beats_best h locus best_score"
  then show "resolve_hit False h (best_score, best_allele) = Inr (best_score, best_allele)"
    using assms(1)
    by (auto simp: resolve_hit_def annotate_def beats_best_def Let_def split: option.splits)
qed

theorem allele_call_second_field_witness:
  "resolve_hit False (inexact_hit ''gapA_2'' 950) ([(''gapA'', 900)], [(''gapA'', ''1'')])
     = Inr ([(''gapA'', 950)], [(''gapA'', ''2*'')])
   \<and> get_best_allele_per_locus [exact_hit ''gapA_1'' 900, exact_hit ''gapA'' 950] False
     = Inl IndexError
   \<and> resolve_hit False (exact_hit ''gapA'' 800) ([(''gapA'', 900)], [(''gapA'', ''1'')])
     = Inr ([(''gapA'', 900)], [(''gapA'', ''1'')])"
proof -
  have p: "resolve_hits False [exact_hit ''gapA_1'' 900] ([], [])
             = Inr ([(''gapA'', 900)], [(''gapA'', ''1'')])"
    by code_simp
  have a: "get_allele_and_locus (inexact_hit ''gapA_2'' 950) = Inr (''gapA_2'', ''gapA'')"
    by code_simp
  have a1: "beats_best (inexact_hit ''gapA_2'' 950) ''gapA'' [(''gapA'', 900)]"
    by code_simp
  have a2: "allele_number (if inexact (inexact_hit ''gapA_2'' 950) then ''gapA_2'' @ ''*'' else ''gapA_2'')
              = Inr ''2*''"
    by code_simp
  have b: "get_allele_and_locus (exact_hit ''gapA'' 950) = Inr (''gapA'', ''gapA'')"
    by code_simp
  have b1: "beats_best (exact_hit ''gapA'' 950) ''gapA'' [(''gapA'', 900)]"
    by code_simp
  have b2: "CHR ''_'' \<notin> set ''gapA''" by simp
  have c: "get_allele_and_locus (exact_hit ''gapA'' 800) = Inr (''gapA'', ''gapA'')"
    by code_simp
  have c1: "\<not> beats_best (exact_hit ''gapA'' 800) ''gapA'' [(''gapA'', 900)]"
    by code_simp
  have u: "AList.update ''gapA'' (score (inexact_hit ''gapA_2'' 950)) [(''gapA'', 900)] = [(''gapA'', 950)]"
    "AList.update ''gapA'' ''2*'' [(''gapA'', ''1'')] = [(''gapA'', ''2*'')]"
    by (simp_all add: inexact_hit_def)
  show ?thesis
    using allele_call_second_field [OF a p, of "[]"] a1 a2
      allele_call_second_field [OF b p, of "[]"] b1 b2
      allele_call_second_field [OF c p, of "[]"] c1 u
    by simp
qed

section \<open>Round trip through the database\<close>

lemma load_line_distinct:
  "load_line info_arg line (n, a, s, h) = Inr (n', a', s', h') \<Longrightarrow>
     distinct (map fst a) \<Longrightarrow> distinct (map fst a')"
  by (auto simp: load_line_def AList.distinct_update split: list.splits if_splits)

lemma load_lines_distinct:
  "load_lines info_arg ls (n, a, s, h) = Inr (n', a', s', h') \<Longrightarrow>
     distinct (map fst a) \<Longrightarrow> distinct (map fst a')"
proof (induction ls arbitrary: n a s h)
  case Nil
  then show ?case by simp
next
  case (Cons l ls)
  from Cons.prems(1) obtain n1 a1 s1 h1 where
    1: "load_line info_arg l (n, a, s, h) = Inr (n1, a1, s1, h1)"
    and 2: "load_lines info_arg ls (n1, a1, s1, h1) = Inr (n', a', s', h')"
    by (auto split: sum.splits)
  show ?case
    using Cons.IH [OF 2] load_line_distinct [OF 1 Cons.prems(2)] by simp
qed

lemma load_st_database_distinct:
  "load_st_database database info_arg = Inr (st_names, alleles_to_st, st_to_info, header) \<Longrightarrow>
     distinct (map fst alleles_to_st)"
  using load_lines_distinct [of info_arg database "[]" "[]" "[]" "[]"]
  by (simp add: load_st_database_def)

lemma collect_calls_present:
  "length cells = length header \<Longrightarrow>
   (\<And>i. i < length header \<Longrightarrow> map_of best_allele (header ! i) = Some (cells ! i)) \<Longrightarrow>
   (\<And>c. c \<in> set cells \<Longrightarrow> CHR ''*'' \<notin> set c \<and> re_sub_trunc c = c) \<Longrightarrow>
   collect_calls best_allele header = (cells, cells, 0, 0)"
proof (induction header arbitrary: cells)
  case Nil
  then show ?case by simp
next
  case (Cons l ls)
  then obtain c cs where cells: "cells = c # cs"
    by (cases cells) auto
  have len: "length cs = length ls"
    using Cons.prems(1) cells by simp
  have rest: "collect_calls best_allele ls = (cs, cs, 0, 0)"
  proof (rule Cons.IH [OF len])
    fix i assume "i < length ls"
    then show "map_of best_allele (ls ! i) = Some (cs ! i)"
      using Cons.prems(2) [of "Suc i"] cells by simp
  next
    fix x assume "x \<in> set cs"
    then show "CHR ''*'' \<notin> set x \<and> re_sub_trunc x = x"
      using Cons.prems(3) cells by simp
  qed
  have hd: "map_of best_allele l = Some c"
    using Cons.prems(2) [of 0] cells by simp
  have ok: "CHR ''*'' \<notin> set c" "re_sub_trunc c = c"
    using Cons.prems(3) [of c] cells by simp_all
  have "filter (\<lambda>x. x \<noteq> CHR ''*'') c = c"
    using ok(1) by (auto simp: filter_id_conv)
  then show ?case
    using rest hd ok cells by simp
qed

text \<open>
  Against C5 as stated. The loader keeps one ST per profile key: a later row with the
  same alleles replaces the earlier ST. ST 1 below is listed with profile
  \<open>5\<close>, and its own profile is matched to ST 2.
\<close>

theorem duplicate_profile_counterexample:
  "load_st_database dup_db ''no'' = Inr ([''1'', ''2''], [(''5'', ''2'')], [], [''gapA''])
   \<and> mlst_blast dup_db ''no'' [''a.fasta''] [exact_hit ''gapA_5'' 900] 0 False False False
       = Inr (''2'', [''5''], [])"
  by code_simp

text \<open>
  C5, as amended. For every database the loader accepts and every entry of the loaded
  exact-lookup table (a profile key and the ST of the last row with that profile),
  running the matcher on the profile (one cell per header locus, distinct locus
  names, no \<open>*\<close> marker or truncation tag in a cell, \<open>max_missing\<close> at least 0)
  gives calls equal to the cells, zero mismatches and zero missing loci, and returns
  exactly that ST id as the label, with no suffix.
\<close>

theorem round_trip:
  assumes "load_st_database database info_arg = Inr (st_names, alleles_to_st, st_to_info, header)"
    and "(key, st) \<in> set alleles_to_st"
    and "join_comma cells = key"
    and "length cells = length header"
    and "distinct header"
    and "\<forall>c \<in> set cells. CHR ''*'' \<notin> set c \<and> re_sub_trunc c = c"
    and "0 \<le> max_missing"
  shows "collect_calls (zip header cells) header = (cells, cells, 0, 0)
       \<and> lookup_st alleles_to_st cells cells 0 max_missing = Inr (st, 0)
       \<and> match_st (st_names, alleles_to_st, st_to_info, header) info_arg (zip header cells)
            max_missing report_incomplete
          = Inr (st, cells, pull_info info_arg st_to_info report_incomplete 0 st)"
proof -
  have c: "collect_calls (zip header cells) header = (cells, cells, 0, 0)"
  proof (rule collect_calls_present [OF assms(4)])
    fix i assume "i < length header"
    then show "map_of (zip header cells) (header ! i) = Some (cells ! i)"
      using assms(4,5) by (simp add: map_of_zip_nth)
  next
    fix x assume "x \<in> set cells"
    then show "CHR ''*'' \<notin> set x \<and> re_sub_trunc x = x"
      using assms(6) by simp
  qed
  have "map_of alleles_to_st key = Some st"
    using load_st_database_distinct [OF assms(1)] assms(2) by simp
  then have l: "lookup_st alleles_to_st cells cells 0 max_missing = Inr (st, 0)"
    using assms(3,7) by (simp add: lookup_st_def)
  have "\<not> int (length header) < int (length header div 2)"
    by linarith
  then have g: "gate2 header cells st 0 = st"
    using assms(4) by (simp add: gate2_def required_exact_matches_def)
  show ?thesis
    using c l match_st_eq [OF c l] g by (simp add: lv_label_def)
qed

theorem round_trip_witness:
  "match_st ([''10'', ''11''], [(''1,2,3'', ''10''), (''1,2,4'', ''11'')],
        [(''10'', ''CG10''), (''11'', ''CG11'')], [''gapA'', ''infB'', ''mdh'']) ''yes''
      [(''gapA'', ''1''), (''infB'', ''2''), (''mdh'', ''4'')] 0 True
    = Inr (''11'', [''1'', ''2'', ''4''], ''CG11'')"
proof -
  have 1: "load_st_database ex_db ''yes'' = Inr ([''10'', ''11''], [(''1,2,3'', ''10''), (''1,2,4'', ''11'')],
        [(''10'', ''CG10''), (''11'', ''CG11'')], [''gapA'', ''infB'', ''mdh''])"
    by code_simp
  have 2: "(''1,2,4'', ''11'') \<in> set [(''1,2,3'', ''10''), (''1,2,4'', ''11'')]" by simp
  have 3: "join_comma [''1'', ''2'', ''4''] = ''1,2,4''" by simp
  have 4: "length [''1'', ''2'', ''4''] = length [''gapA'', ''infB'', ''mdh'']" by simp
  have 5: "distinct [''gapA'', ''infB'', ''mdh'']" by simp
  have 6: "\<forall>c \<in> set [''1'', ''2'', ''4'']. CHR ''*'' \<notin> set c \<and> re_sub_trunc c = c" by simp
  have 7: "(0::int) \<le> 0" by simp
  have 8: "pull_info ''yes'' [(''10'', ''CG10''), (''11'', ''CG11'')] True 0 ''11'' = ''CG11''"
    by code_simp
  show ?thesis
    using round_trip [OF 1 2 3 4 5 6 7, of True] 8 by simp
qed

section \<open>Nearest-variant search\<close>

text \<open>
  What the loop of lines 191 to 200 leaves: \<open>min_dist\<close> never grows, it is a lower bound
  of every profile's distance, \<open>closest\<close> holds exactly the ids of the profiles at
  that distance, and \<open>closest_alleles\<close> holds registered profiles only.
\<close>

lemma mismatches_le:
  "mismatches xs ys = Inr n \<Longrightarrow> n \<le> length xs \<and> n \<le> length ys"
proof (induction xs ys arbitrary: n rule: mismatches.induct)
  case (1 x xs y ys)
  from "1.prems" obtain a b m where
    a: "py_int x = Inr a" and b: "py_int y = Inr b" and m: "mismatches xs ys = Inr m"
    and n: "n = (if a - b \<noteq> 0 then 1 else 0) + m"
    by (auto split: sum.splits)
  have "m \<le> length xs \<and> m \<le> length ys"
    using "1.IH" [OF a b m] .
  then show ?case using n by auto
qed simp_all

lemma closest_loop_step:
  assumes "closest_loop ((p, s) # rest) q (cl, ca, md) = Inr r"
  obtains d cl1 ca1 md1 where "mismatches (split_on CHR '','' p) q = Inr d"
    and "closest_loop rest q (cl1, ca1, md1) = Inr r"
    and "d = md \<and> (\<exists>k. py_int s = Inr k \<and> cl1 = cl @ [k]) \<and> ca1 = AList.update s p ca \<and> md1 = md
       \<or> d < md \<and> (\<exists>k. py_int s = Inr k \<and> cl1 = [k]) \<and> ca1 = AList.update s p ca \<and> md1 = d
       \<or> md < d \<and> cl1 = cl \<and> ca1 = ca \<and> md1 = md"
  using assms by (auto split: sum.splits if_splits)

lemma closest_loop_mono:
  "closest_loop sts q (cl, ca, md) = Inr (cl', ca', md') \<Longrightarrow>
     md' \<le> md \<and> (md' = md \<longrightarrow> set cl \<subseteq> set cl') \<and> (cl \<noteq> [] \<longrightarrow> cl' \<noteq> [])"
proof (induction sts arbitrary: cl ca md)
  case Nil
  then show ?case by simp
next
  case (Cons e sts)
  obtain p s where e: "e = (p, s)" by (cases e)
  from Cons.prems [unfolded e] show ?case
  proof (rule closest_loop_step)
    fix d cl1 ca1 md1
    assume "closest_loop sts q (cl1, ca1, md1) = Inr (cl', ca', md')"
    then have ih: "md' \<le> md1 \<and> (md' = md1 \<longrightarrow> set cl1 \<subseteq> set cl') \<and> (cl1 \<noteq> [] \<longrightarrow> cl' \<noteq> [])"
      by (rule Cons.IH)
    assume "d = md \<and> (\<exists>k. py_int s = Inr k \<and> cl1 = cl @ [k]) \<and> ca1 = AList.update s p ca \<and> md1 = md
       \<or> d < md \<and> (\<exists>k. py_int s = Inr k \<and> cl1 = [k]) \<and> ca1 = AList.update s p ca \<and> md1 = d
       \<or> md < d \<and> cl1 = cl \<and> ca1 = ca \<and> md1 = md"
    with ih show ?thesis by auto
  qed
qed

lemma closest_loop_lower_bound:
  "closest_loop sts q (cl, ca, md) = Inr (cl', ca', md') \<Longrightarrow> (p, s) \<in> set sts \<Longrightarrow>
     \<exists>d. mismatches (split_on CHR '','' p) q = Inr d \<and> md' \<le> d"
proof (induction sts arbitrary: cl ca md)
  case Nil
  then show ?case by simp
next
  case (Cons e sts)
  obtain p0 s0 where e: "e = (p0, s0)" by (cases e)
  from Cons.prems(1) [unfolded e] show ?case
  proof (rule closest_loop_step)
    fix d cl1 ca1 md1
    assume d: "mismatches (split_on CHR '','' p0) q = Inr d"
      and r: "closest_loop sts q (cl1, ca1, md1) = Inr (cl', ca', md')"
      and c: "d = md \<and> (\<exists>k. py_int s0 = Inr k \<and> cl1 = cl @ [k]) \<and> ca1 = AList.update s0 p0 ca \<and> md1 = md
       \<or> d < md \<and> (\<exists>k. py_int s0 = Inr k \<and> cl1 = [k]) \<and> ca1 = AList.update s0 p0 ca \<and> md1 = d
       \<or> md < d \<and> cl1 = cl \<and> ca1 = ca \<and> md1 = md"
    have m: "md' \<le> md1" using closest_loop_mono [OF r] by simp
    show ?thesis
    proof (cases "(p, s) = (p0, s0)")
      case True
      then show ?thesis using d c m by auto
    next
      case False
      then have "(p, s) \<in> set sts" using Cons.prems(2) e by auto
      then show ?thesis using Cons.IH [OF r] by simp
    qed
  qed
qed

lemma closest_loop_members:
  "closest_loop sts q (cl, ca, md) = Inr (cl', ca', md') \<Longrightarrow> k \<in> set cl' \<Longrightarrow>
     (k \<in> set cl \<and> md' = md) \<or>
     (\<exists>p s. (p, s) \<in> set sts \<and> mismatches (split_on CHR '','' p) q = Inr md' \<and> py_int s = Inr k)"
proof (induction sts arbitrary: cl ca md)
  case Nil
  then show ?case by simp
next
  case (Cons e sts)
  obtain p0 s0 where e: "e = (p0, s0)" by (cases e)
  from Cons.prems(1) [unfolded e] show ?case
  proof (rule closest_loop_step)
    fix d cl1 ca1 md1
    assume d: "mismatches (split_on CHR '','' p0) q = Inr d"
      and r: "closest_loop sts q (cl1, ca1, md1) = Inr (cl', ca', md')"
      and c: "d = md \<and> (\<exists>k. py_int s0 = Inr k \<and> cl1 = cl @ [k]) \<and> ca1 = AList.update s0 p0 ca \<and> md1 = md
       \<or> d < md \<and> (\<exists>k. py_int s0 = Inr k \<and> cl1 = [k]) \<and> ca1 = AList.update s0 p0 ca \<and> md1 = d
       \<or> md < d \<and> cl1 = cl \<and> ca1 = ca \<and> md1 = md"
    have ih: "(k \<in> set cl1 \<and> md' = md1) \<or>
       (\<exists>p s. (p, s) \<in> set sts \<and> mismatches (split_on CHR '','' p) q = Inr md' \<and> py_int s = Inr k)"
      using Cons.IH [OF r Cons.prems(2)] .
    then show ?thesis
    proof
      assume k: "k \<in> set cl1 \<and> md' = md1"
      show ?thesis
      proof (cases "k \<in> set cl \<and> md1 = md")
        case True
        then show ?thesis using k by simp
      next
        case False
        then have "py_int s0 = Inr k \<and> d = md1"
          using c k by auto
        then have "(p0, s0) \<in> set (e # sts) \<and> mismatches (split_on CHR '','' p0) q = Inr md' \<and> py_int s0 = Inr k"
          using d k e by simp
        then show ?thesis by blast
      qed
    next
      assume "\<exists>p s. (p, s) \<in> set sts \<and> mismatches (split_on CHR '','' p) q = Inr md' \<and> py_int s = Inr k"
      then show ?thesis by auto
    qed
  qed
qed

lemma closest_loop_complete:
  "closest_loop sts q (cl, ca, md) = Inr (cl', ca', md') \<Longrightarrow> (p, s) \<in> set sts \<Longrightarrow>
     mismatches (split_on CHR '','' p) q = Inr md' \<Longrightarrow> \<exists>k. py_int s = Inr k \<and> k \<in> set cl'"
proof (induction sts arbitrary: cl ca md)
  case Nil
  then show ?case by simp
next
  case (Cons e sts)
  obtain p0 s0 where e: "e = (p0, s0)" by (cases e)
  from Cons.prems(1) [unfolded e] show ?case
  proof (rule closest_loop_step)
    fix d cl1 ca1 md1
    assume d: "mismatches (split_on CHR '','' p0) q = Inr d"
      and r: "closest_loop sts q (cl1, ca1, md1) = Inr (cl', ca', md')"
      and c: "d = md \<and> (\<exists>k. py_int s0 = Inr k \<and> cl1 = cl @ [k]) \<and> ca1 = AList.update s0 p0 ca \<and> md1 = md
       \<or> d < md \<and> (\<exists>k. py_int s0 = Inr k \<and> cl1 = [k]) \<and> ca1 = AList.update s0 p0 ca \<and> md1 = d
       \<or> md < d \<and> cl1 = cl \<and> ca1 = ca \<and> md1 = md"
    have m: "md' \<le> md1 \<and> (md' = md1 \<longrightarrow> set cl1 \<subseteq> set cl')"
      using closest_loop_mono [OF r] by simp
    show ?thesis
    proof (cases "(p, s) \<in> set sts")
      case True
      then show ?thesis using Cons.IH [OF r _ Cons.prems(3)] by simp
    next
      case False
      then have ps: "p = p0" "s = s0" using Cons.prems(2) e by auto
      then have "d = md'" using d Cons.prems(3) by simp
      then show ?thesis using c m ps by auto
    qed
  qed
qed

lemma closest_loop_alleles:
  "closest_loop sts q (cl, ca, md) = Inr (cl', ca', md') \<Longrightarrow> map_of ca' s = Some p \<Longrightarrow>
     map_of ca s = Some p \<or> (p, s) \<in> set sts"
proof (induction sts arbitrary: cl ca md)
  case Nil
  then show ?case by simp
next
  case (Cons e sts)
  obtain p0 s0 where e: "e = (p0, s0)" by (cases e)
  from Cons.prems(1) [unfolded e] show ?case
  proof (rule closest_loop_step)
    fix d cl1 ca1 md1
    assume r: "closest_loop sts q (cl1, ca1, md1) = Inr (cl', ca', md')"
      and c: "d = md \<and> (\<exists>k. py_int s0 = Inr k \<and> cl1 = cl @ [k]) \<and> ca1 = AList.update s0 p0 ca \<and> md1 = md
       \<or> d < md \<and> (\<exists>k. py_int s0 = Inr k \<and> cl1 = [k]) \<and> ca1 = AList.update s0 p0 ca \<and> md1 = d
       \<or> md < d \<and> cl1 = cl \<and> ca1 = ca \<and> md1 = md"
    have "map_of ca1 s = Some p \<or> (p, s) \<in> set sts"
      using Cons.IH [OF r Cons.prems(2)] .
    moreover have "map_of ca1 s = Some p \<Longrightarrow> map_of ca s = Some p \<or> (p, s) = (p0, s0)"
      using c by (auto simp: update_conv' split: if_splits)
    ultimately show ?thesis using e by auto
  qed
qed


lemma parses_iff: "parses s \<longleftrightarrow> (\<exists>a. py_int s = Inr a)"
  by (simp add: parses_def split: sum.splits)

lemma mismatches_total:
  "list_all parses xs \<Longrightarrow> list_all parses ys \<Longrightarrow> \<exists>n. mismatches xs ys = Inr n"
proof (induction xs ys rule: mismatches.induct)
  case (1 x xs y ys)
  from "1.prems" obtain a b where a: "py_int x = Inr a" and b: "py_int y = Inr b"
    by (auto simp: parses_iff)
  have "\<exists>n. mismatches xs ys = Inr n"
    using "1.IH" [OF a b] "1.prems" by simp
  then show ?case using a b by auto
qed simp_all

lemma closest_loop_total:
  "list_all (\<lambda>(p, s). list_all parses (split_on CHR '','' p) \<and> canonical_id s) sts \<Longrightarrow>
   list_all parses q \<Longrightarrow> \<exists>r. closest_loop sts q (cl, ca, md) = Inr r"
proof (induction sts arbitrary: cl ca md)
  case Nil
  then show ?case by simp
next
  case (Cons e sts)
  obtain p s where e: "e = (p, s)" by (cases e)
  have "list_all parses (split_on CHR '','' p)" and c: "canonical_id s"
    using Cons.prems(1) e by simp_all
  then obtain d where d: "mismatches (split_on CHR '','' p) q = Inr d"
    using mismatches_total Cons.prems(2) by blast
  obtain k where k: "py_int s = Inr k"
    using c by (auto simp: canonical_id_def split: sum.splits)
  have rest: "\<exists>r. closest_loop sts q (cl1, ca1, md1) = Inr r" for cl1 ca1 md1
    using Cons.IH Cons.prems by simp
  show ?case
    using d k rest by (simp add: e)
qed

lemma closest_loop_keys:
  "closest_loop sts q (cl, ca, md) = Inr (cl', ca', md') \<Longrightarrow>
   list_all (\<lambda>(p, s). list_all parses (split_on CHR '','' p) \<and> canonical_id s) sts \<Longrightarrow>
   (\<And>k. k \<in> set cl \<Longrightarrow> map_of ca (py_str k) \<noteq> None) \<Longrightarrow>
   k \<in> set cl' \<Longrightarrow> map_of ca' (py_str k) \<noteq> None"
proof (induction sts arbitrary: cl ca md)
  case Nil
  then show ?case by simp
next
  case (Cons e sts)
  obtain p0 s0 where e: "e = (p0, s0)" by (cases e)
  have can: "canonical_id s0" and wf: "list_all (\<lambda>(p, s). list_all parses (split_on CHR '','' p) \<and> canonical_id s) sts"
    using Cons.prems(2) e by simp_all
  from Cons.prems(1) [unfolded e] show ?case
  proof (rule closest_loop_step)
    fix d cl1 ca1 md1
    assume r: "closest_loop sts q (cl1, ca1, md1) = Inr (cl', ca', md')"
      and c: "d = md \<and> (\<exists>k. py_int s0 = Inr k \<and> cl1 = cl @ [k]) \<and> ca1 = AList.update s0 p0 ca \<and> md1 = md
       \<or> d < md \<and> (\<exists>k. py_int s0 = Inr k \<and> cl1 = [k]) \<and> ca1 = AList.update s0 p0 ca \<and> md1 = d
       \<or> md < d \<and> cl1 = cl \<and> ca1 = ca \<and> md1 = md"
    have "map_of ca1 (py_str j) \<noteq> None" if "j \<in> set cl1" for j
      using c that can Cons.prems(3) [of j]
      by (auto simp: update_conv' canonical_id_def split: sum.splits)
    then show ?thesis
      using Cons.IH [OF r wf _ Cons.prems(4)] by blast
  qed
qed

lemma closest_loop_nonempty:
  assumes "closest_loop sts q ([], [], length q) = Inr (cl', ca', md')" and "sts \<noteq> []"
  shows "cl' \<noteq> []"
proof -
  obtain p s rest where sts: "sts = (p, s) # rest"
    using assms(2) by (cases sts) auto
  from assms(1) [unfolded sts] show ?thesis
  proof (rule closest_loop_step)
    fix d cl1 ca1 md1
    assume d: "mismatches (split_on CHR '','' p) q = Inr d"
      and r: "closest_loop rest q (cl1, ca1, md1) = Inr (cl', ca', md')"
      and c: "d = length q \<and> (\<exists>k. py_int s = Inr k \<and> cl1 = [] @ [k]) \<and> ca1 = AList.update s p [] \<and> md1 = length q
       \<or> d < length q \<and> (\<exists>k. py_int s = Inr k \<and> cl1 = [k]) \<and> ca1 = AList.update s p [] \<and> md1 = d
       \<or> length q < d \<and> cl1 = [] \<and> ca1 = [] \<and> md1 = length q"
    have "d \<le> length q" using mismatches_le [OF d] by simp
    then have "cl1 \<noteq> []" using c by auto
    then show ?thesis using closest_loop_mono [OF r] by simp
  qed
qed

lemma get_closest_locus_variant_total:
  assumes "well_formed_table sts"
    and "list_all parses (map zero_missing query)"
    and "list_all parses (map zero_inexact annotated)"
  shows "\<exists>r. get_closest_locus_variant query annotated sts = Inr r"
proof -
  have wf: "list_all (\<lambda>(p, s). list_all parses (split_on CHR '','' p) \<and> canonical_id s) sts"
    and ne: "sts \<noteq> []"
    using assms(1) by (simp_all add: well_formed_table_def)
  obtain cl ca md where
    l: "closest_loop sts (map zero_missing query) ([], [], length (map zero_missing query)) = Inr (cl, ca, md)"
    using closest_loop_total [OF wf assms(2)] by (metis prod_cases3)
  have cl: "cl \<noteq> []"
    using closest_loop_nonempty [OF l ne] .
  then have "Min (set cl) \<in> set cl" by simp
  then have "map_of ca (py_str (Min (set cl))) \<noteq> None"
    using closest_loop_keys [OF l wf] by simp
  then obtain p where p: "map_of ca (py_str (Min (set cl))) = Some p" by auto
  then have "(p, py_str (Min (set cl))) \<in> set sts"
    using closest_loop_alleles [OF l] by fastforce
  then have "list_all parses (split_on CHR '','' p)"
    using wf by (auto simp: list_all_iff)
  then obtain m where "mismatches (split_on CHR '','' p) (map zero_inexact annotated) = Inr m"
    using mismatches_total assms(3) by blast
  then show ?thesis
    using l cl p by (simp add: get_closest_locus_variant_def Let_def)
qed

lemma get_closest_locus_variant_result:
  assumes "get_closest_locus_variant query annotated sts = Inr (st, d, m)"
  shows "\<exists>cl ca. closest_loop sts (map zero_missing query) ([], [], length query) = Inr (cl, ca, d)
           \<and> cl \<noteq> [] \<and> st = py_str (Min (set cl))
           \<and> (\<exists>p. map_of ca st = Some p
                 \<and> mismatches (split_on CHR '','' p) (map zero_inexact annotated) = Inr m)"
  using assms
  by (auto simp: get_closest_locus_variant_def Let_def split: sum.splits if_splits option.splits)

text \<open>
  C3. When gate 1 passes and the joined profile is not a key of the table, the ST
  returned by lines 73 to 86 is the id, read as an integer and written back, of a
  registered profile whose distance to the query (\<open>-\<close> replaced by \<open>0\<close>, both sides
  read as integers position by position) is minimal over the table, and no registered
  profile at that distance has a numerically smaller id. The search returns for every
  table with at least one profile, integer alleles and canonical ST ids, when the
  calls are integers.
\<close>

theorem nearest_variant_choice:
  assumes "mismatch \<le> max_missing" and "map_of sts (join_comma best_st) = None"
  shows "(\<forall>bst m. lookup_st sts best_st annotated mismatch max_missing = Inr (bst, m) \<longrightarrow>
            (\<exists>p s k d. (p, s) \<in> set sts \<and> py_int s = Inr k \<and> bst = py_str k \<and>
               mismatches (split_on CHR '','' p) (map zero_missing best_st) = Inr d \<and>
               (\<forall>(p', s') \<in> set sts. \<exists>d'.
                   mismatches (split_on CHR '','' p') (map zero_missing best_st) = Inr d' \<and> d \<le> d' \<and>
                   (d' = d \<longrightarrow> (\<exists>k'. py_int s' = Inr k' \<and> k \<le> k')))))
       \<and> (well_formed_table sts \<and> list_all parses (map zero_missing best_st)
            \<and> list_all parses (map zero_inexact annotated) \<longrightarrow>
            (\<exists>bst m. lookup_st sts best_st annotated mismatch max_missing = Inr (bst, m)))"
proof (intro conjI allI impI)
  fix bst m
  assume "lookup_st sts best_st annotated mismatch max_missing = Inr (bst, m)"
  then obtain d m' where "get_closest_locus_variant best_st annotated sts = Inr (bst, d, m')"
    using assms by (auto simp: lookup_st_def split: sum.splits)
  then obtain cl ca where
    l: "closest_loop sts (map zero_missing best_st) ([], [], length best_st) = Inr (cl, ca, d)"
    and cl: "cl \<noteq> []" and bst: "bst = py_str (Min (set cl))"
    using get_closest_locus_variant_result by blast
  define k where "k = Min (set cl)"
  have kin: "k \<in> set cl" using cl by (simp add: k_def)
  obtain p s where ps: "(p, s) \<in> set sts" "py_int s = Inr k"
    and d: "mismatches (split_on CHR '','' p) (map zero_missing best_st) = Inr d"
    using closest_loop_members [OF l kin] by auto
  have others: "\<exists>d'. mismatches (split_on CHR '','' p') (map zero_missing best_st) = Inr d' \<and> d \<le> d' \<and>
                   (d' = d \<longrightarrow> (\<exists>k'. py_int s' = Inr k' \<and> k \<le> k'))"
    if mem: "(p', s') \<in> set sts" for p' s'
  proof -
    obtain d' where d': "mismatches (split_on CHR '','' p') (map zero_missing best_st) = Inr d'" "d \<le> d'"
      using closest_loop_lower_bound [OF l mem] by auto
    have "\<exists>k'. py_int s' = Inr k' \<and> k \<le> k'" if eq: "d' = d"
    proof -
      obtain k' where "py_int s' = Inr k'" "k' \<in> set cl"
        using closest_loop_complete [OF l mem] d' eq by auto
      then show ?thesis by (auto simp: k_def)
    qed
    then show ?thesis using d' by auto
  qed
  show "\<exists>p s k d. (p, s) \<in> set sts \<and> py_int s = Inr k \<and> bst = py_str k \<and>
               mismatches (split_on CHR '','' p) (map zero_missing best_st) = Inr d \<and>
               (\<forall>(p', s') \<in> set sts. \<exists>d'.
                   mismatches (split_on CHR '','' p') (map zero_missing best_st) = Inr d' \<and> d \<le> d' \<and>
                   (d' = d \<longrightarrow> (\<exists>k'. py_int s' = Inr k' \<and> k \<le> k')))"
    using ps d bst others unfolding k_def by blast
next
  assume "well_formed_table sts \<and> list_all parses (map zero_missing best_st)
            \<and> list_all parses (map zero_inexact annotated)"
  then obtain st d m where "get_closest_locus_variant best_st annotated sts = Inr (st, d, m)"
    using get_closest_locus_variant_total by (metis prod_cases3)
  then show "\<exists>bst m. lookup_st sts best_st annotated mismatch max_missing = Inr (bst, m)"
    using assms by (simp add: lookup_st_def)
qed


theorem nearest_variant_choice_witness:
  "lookup_st [(''1,2,3'', ''10''), (''1,2,4'', ''11'')] [''1'', ''2'', ''7''] [''1'', ''2'', ''7''] 0 3
     = Inr (''10'', 1)
   \<and> (\<exists>p s k d. (p, s) \<in> set [(''1,2,3'', ''10''), (''1,2,4'', ''11'')] \<and> py_int s = Inr k \<and>
         ''10'' = py_str k \<and>
         mismatches (split_on CHR '','' p) (map zero_missing [''1'', ''2'', ''7'']) = Inr d \<and>
         (\<forall>(p', s') \<in> set [(''1,2,3'', ''10''), (''1,2,4'', ''11'')]. \<exists>d'.
             mismatches (split_on CHR '','' p') (map zero_missing [''1'', ''2'', ''7'']) = Inr d' \<and>
             d \<le> d' \<and> (d' = d \<longrightarrow> (\<exists>k'. py_int s' = Inr k' \<and> k \<le> k'))))
   \<and> (\<exists>bst m. lookup_st [(''1,2,3'', ''10''), (''1,2,4'', ''11'')] [''1'', ''2'', ''7'']
          [''1'', ''2'', ''7''] 0 3 = Inr (bst, m))"
proof -
  let ?T = "[(''1,2,3'', ''10''), (''1,2,4'', ''11'')]"
  let ?q = "[''1'', ''2'', ''7'']"
  have 1: "(0::int) \<le> 3" by simp
  have 2: "map_of ?T (join_comma ?q) = None" by simp
  have v: "lookup_st ?T ?q ?q 0 3 = Inr (''10'', 1)" by code_simp
  have w: "well_formed_table ?T \<and> list_all parses (map zero_missing ?q)
             \<and> list_all parses (map zero_inexact ?q)"
    by code_simp
  show ?thesis
    using nearest_variant_choice [OF 1 2, of ?q] v w by blast
qed

text \<open>
  C4. After a nearest-variant search, \<open>mismatch_loci_including_snps\<close> is the distance
  between the annotated calls (truncation tags removed, \<open>-\<close> and calls with \<open>*\<close>
  replaced by \<open>0\<close>) and a profile registered for the winning ST, position by position
  as integers, and the label is the ST after gate 2 followed by \<open>-<n>LV\<close> exactly when
  that count \<open>n\<close> is positive and the ST is not \<open>"0"\<close>.
\<close>

theorem recomputed_mismatch_and_suffix:
  assumes "load_st_database database info_arg = Inr (st_names, alleles_to_st, st_to_info, header)"
    and "assemblies \<noteq> []"
    and "(if \<not> allow_multiple then keep_only_one_hit_per_locus hits else Inr hits) = Inr hits'"
    and "get_best_allele_per_locus hits' check_for_truncation = Inr best_allele"
    and "collect_calls best_allele header = (best_st, annotated, mismatch, missing)"
    and "mismatch \<le> max_missing"
    and "map_of alleles_to_st (join_comma best_st) = None"
    and "get_closest_locus_variant best_st annotated alleles_to_st = Inr (st, d, m)"
  shows "(\<exists>p. (p, st) \<in> set alleles_to_st
            \<and> mismatches (split_on CHR '','' p) (map zero_inexact annotated) = Inr m)
       \<and> lookup_st alleles_to_st best_st annotated mismatch max_missing = Inr (st, int m)
       \<and> mlst_blast database info_arg assemblies hits max_missing
            check_for_truncation report_incomplete allow_multiple
          = Inr (if 0 < m \<and> gate2 header best_st st (int m) \<noteq> ''0''
                 then gate2 header best_st st (int m) @ ''-'' @ py_str (int m) @ ''LV''
                 else gate2 header best_st st (int m),
                 annotated,
                 pull_info info_arg st_to_info report_incomplete missing
                   (gate2 header best_st st (int m)))"
proof -
  obtain cl ca p where
    l: "closest_loop alleles_to_st (map zero_missing best_st) ([], [], length best_st) = Inr (cl, ca, d)"
    and p: "map_of ca st = Some p"
    and m: "mismatches (split_on CHR '','' p) (map zero_inexact annotated) = Inr m"
    using get_closest_locus_variant_result [OF assms(8)] by blast
  have "(p, st) \<in> set alleles_to_st"
    using closest_loop_alleles [OF l p] by simp
  then have a: "\<exists>p. (p, st) \<in> set alleles_to_st
            \<and> mismatches (split_on CHR '','' p) (map zero_inexact annotated) = Inr m"
    using m by blast
  have b: "lookup_st alleles_to_st best_st annotated mismatch max_missing = Inr (st, int m)"
    using assms(6,7,8) by (simp add: lookup_st_def)
  have c: "mlst_blast database info_arg assemblies hits max_missing
            check_for_truncation report_incomplete allow_multiple
          = Inr (lv_label (gate2 header best_st st (int m)) (int m), annotated,
                 pull_info info_arg st_to_info report_incomplete missing
                   (gate2 header best_st st (int m)))"
    using mlst_blast_eq [OF assms(1-4)] match_st_eq [OF assms(5) b] by simp
  show ?thesis
    using a b c by (simp add: lv_label_def)
qed

theorem recomputed_mismatch_and_suffix_witness:
  "(\<exists>p. (p, ''10'') \<in> set [(''1,2,3'', ''10''), (''1,2,4'', ''11'')]
        \<and> mismatches (split_on CHR '','' p) (map zero_inexact [''1'', ''2*'', ''7'']) = Inr 2)
   \<and> mlst_blast ex_db ''yes'' [''a.fasta'']
        [exact_hit ''gapA_1'' 900, inexact_hit ''infB_2'' 900, exact_hit ''mdh_7'' 900]
        3 False False True
      = Inr (''10-2LV'', [''1'', ''2*'', ''7''], ''CG10'')"
proof -
  let ?hits = "[exact_hit ''gapA_1'' 900, inexact_hit ''infB_2'' 900, exact_hit ''mdh_7'' 900]"
  let ?T = "[(''1,2,3'', ''10''), (''1,2,4'', ''11'')]"
  have 1: "load_st_database ex_db ''yes'' = Inr ([''10'', ''11''], ?T,
        [(''10'', ''CG10''), (''11'', ''CG11'')], [''gapA'', ''infB'', ''mdh''])"
    by code_simp
  have 2: "[''a.fasta''] \<noteq> ([] :: string list)" by simp
  have 3: "(if \<not> True then keep_only_one_hit_per_locus ?hits else Inr ?hits) = Inr ?hits"
    by simp
  have 4: "get_best_allele_per_locus ?hits False
             = Inr [(''gapA'', ''1''), (''infB'', ''2*''), (''mdh'', ''7'')]"
    by code_simp
  have 5: "collect_calls [(''gapA'', ''1''), (''infB'', ''2*''), (''mdh'', ''7'')] [''gapA'', ''infB'', ''mdh'']
             = ([''1'', ''2'', ''7''], [''1'', ''2*'', ''7''], 1, 0)"
    by code_simp
  have 6: "(1::int) \<le> 3" by simp
  have 7: "map_of ?T (join_comma [''1'', ''2'', ''7'']) = None" by simp
  have 8: "get_closest_locus_variant [''1'', ''2'', ''7''] [''1'', ''2*'', ''7''] ?T = Inr (''10'', 1, 2)"
    by code_simp
  have 9: "gate2 [''gapA'', ''infB'', ''mdh''] [''1'', ''2'', ''7''] ''10'' (int 2) = ''10''"
    by code_simp
  have 10: "py_str (int 2) = ''2''" by code_simp
  have 11: "pull_info ''yes'' [(''10'', ''CG10''), (''11'', ''CG11'')] False 0 ''10'' = ''CG10''"
    by code_simp
  show ?thesis
    using recomputed_mismatch_and_suffix [OF 1 2 3 4 5 6 7 8, of False] 9 10 11 by simp
qed

section \<open>Hit Reducer and Allele Resolver\<close>

text \<open>
  The resolver's loop keeps, per locus, the score and the call of the first hit of
  maximum score among the hits read so far; the reducer keeps that same hit of every
  locus. So the resolver builds the same table from the reduced hits as from all of
  them, provided it gets through all of them.
\<close>

lemma hits_of_simps [simp]:
  "hits_of l [] = []"
  "hits_of l (xs @ ys) = hits_of l xs @ hits_of l ys"
  "hits_of l (h # xs) = (if locus_of h = l then h # hits_of l xs else hits_of l xs)"
  by (simp_all add: hits_of_def)

lemma first_best_snoc:
  "first_best (xs @ [h]) =
     (case first_best xs of None \<Rightarrow> Some h | Some b \<Rightarrow> if score b < score h then Some h else Some b)"
  by (induction xs) (auto split: option.splits)

lemma first_best_mem: "first_best xs = Some b \<Longrightarrow> b \<in> set xs"
  by (induction xs arbitrary: b) (auto split: option.splits if_splits)

lemma first_best_None: "first_best xs = None \<longleftrightarrow> xs = []"
  by (cases xs) (auto split: option.splits)

lemma sorted_best_first_hd:
  "case sorted_best_first hs of [] \<Rightarrow> hs = [] | b # _ \<Rightarrow> first_best hs = Some b"
proof (induction hs)
  case Nil
  then show ?case by (simp add: sorted_best_first_def)
next
  case (Cons h hs)
  show ?case
  proof (cases "sorted_best_first hs")
    case Nil
    then have "hs = []" using Cons.IH by simp
    then show ?thesis by (simp add: sorted_best_first_def)
  next
    case (Cons b rest)
    then have "first_best hs = Some b" using Cons.IH by simp
    then show ?thesis
      using Cons by (auto simp: sorted_best_first_def)
  qed
qed


lemma resolve_hit_cases:
  assumes "resolve_hit c h (bs, ba) = Inr (bs1, ba1)"
  shows "(\<exists>a. get_allele_and_locus h = Inr (a, locus_of h)) \<and>
         (beats_best h (locus_of h) bs \<and>
            (\<exists>n. call_of c h = Inr n \<and> bs1 = AList.update (locus_of h) (score h) bs
                   \<and> ba1 = AList.update (locus_of h) n ba)
          \<or> \<not> beats_best h (locus_of h) bs \<and> bs1 = bs \<and> ba1 = ba)"
  using assms
  by (auto simp: resolve_hit_def locus_of_def call_of_def beats_best_def
           split: sum.splits prod.splits option.splits if_splits)

lemma best_inv_iff:
  "best_inv c xs (bs, ba) \<longleftrightarrow>
     (\<forall>l. (first_best (hits_of l xs) = None \<longrightarrow> map_of bs l = None \<and> map_of ba l = None) \<and>
          (\<forall>b. first_best (hits_of l xs) = Some b \<longrightarrow>
               map_of bs l = Some (score b) \<and> (\<exists>n. call_of c b = Inr n \<and> map_of ba l = Some n)))"
  by (auto simp: best_inv_def split: option.splits)

lemma best_inv_step:
  assumes "resolve_hit c h (bs, ba) = Inr (bs1, ba1)" and "best_inv c xs (bs, ba)"
  shows "best_inv c (xs @ [h]) (bs1, ba1)"
  unfolding best_inv_iff
proof (intro allI)
  fix l
  have inv_none: "first_best (hits_of l xs) = None \<Longrightarrow> map_of bs l = None \<and> map_of ba l = None"
    and inv_some: "\<And>b. first_best (hits_of l xs) = Some b \<Longrightarrow>
               map_of bs l = Some (score b) \<and> (\<exists>n. call_of c b = Inr n \<and> map_of ba l = Some n)"
    using assms(2) by (simp_all add: best_inv_iff)
  from resolve_hit_cases [OF assms(1)]
  have cases: "beats_best h (locus_of h) bs \<and>
            (\<exists>n. call_of c h = Inr n \<and> bs1 = AList.update (locus_of h) (score h) bs
                   \<and> ba1 = AList.update (locus_of h) n ba)
          \<or> \<not> beats_best h (locus_of h) bs \<and> bs1 = bs \<and> ba1 = ba"
    by simp
  show "(first_best (hits_of l (xs @ [h])) = None \<longrightarrow> map_of bs1 l = None \<and> map_of ba1 l = None) \<and>
          (\<forall>b. first_best (hits_of l (xs @ [h])) = Some b \<longrightarrow>
               map_of bs1 l = Some (score b) \<and> (\<exists>n. call_of c b = Inr n \<and> map_of ba1 l = Some n))"
  proof (cases "locus_of h = l")
    case False
    then have "map_of bs1 l = map_of bs l" "map_of ba1 l = map_of ba l"
      using cases by (auto simp: update_conv')
    then show ?thesis using inv_none inv_some False by simp
  next
    case True
    show ?thesis
    proof (cases "first_best (hits_of l xs)")
      case None
      then have "map_of bs l = None" using inv_none by simp
      then have "beats_best h (locus_of h) bs" using True by (simp add: beats_best_def)
      then show ?thesis
        using cases True None by (auto simp: update_conv' first_best_snoc)
    next
      case (Some b)
      then have b: "map_of bs l = Some (score b)"
        and n: "\<exists>n. call_of c b = Inr n \<and> map_of ba l = Some n"
        using inv_some by simp_all
      show ?thesis
      proof (cases "score b < score h")
        case True
        then have "beats_best h (locus_of h) bs"
          using b \<open>locus_of h = l\<close> by (simp add: beats_best_def)
        then show ?thesis
          using cases \<open>locus_of h = l\<close> Some True by (auto simp: update_conv' first_best_snoc)
      next
        case False
        then have "\<not> beats_best h (locus_of h) bs"
          using b \<open>locus_of h = l\<close> by (simp add: beats_best_def)
        then show ?thesis
          using cases \<open>locus_of h = l\<close> Some False b n by (auto simp: first_best_snoc)
      qed
    qed
  qed
qed

lemma best_inv_loop:
  "resolve_hits c ys st = Inr st' \<Longrightarrow> best_inv c xs st \<Longrightarrow> best_inv c (xs @ ys) st'"
proof (induction ys arbitrary: xs st)
  case Nil
  then show ?case by simp
next
  case (Cons h ys)
  obtain bs ba where st: "st = (bs, ba)" by (cases st)
  from Cons.prems(1) obtain bs1 ba1 where
    1: "resolve_hit c h (bs, ba) = Inr (bs1, ba1)"
    and 2: "resolve_hits c ys (bs1, ba1) = Inr st'"
    by (auto simp: st split: sum.splits)
  have "best_inv c (xs @ [h]) (bs1, ba1)"
    using best_inv_step [OF 1] Cons.prems(2) st by simp
  then have "best_inv c ((xs @ [h]) @ ys) st'"
    by (rule Cons.IH [OF 2])
  then show ?case by simp
qed

lemma best_inv_empty: "best_inv c [] ([], [])"
  by (simp add: best_inv_def)

lemma resolve_hits_parsed:
  "resolve_hits c ys st = Inr st' \<Longrightarrow> h \<in> set ys \<Longrightarrow>
     \<exists>a. get_allele_and_locus h = Inr (a, locus_of h)"
proof (induction ys arbitrary: st)
  case Nil
  then show ?case by simp
next
  case (Cons y ys)
  obtain bs ba where st: "st = (bs, ba)" by (cases st)
  from Cons.prems(1) obtain bs1 ba1 where
    1: "resolve_hit c y (bs, ba) = Inr (bs1, ba1)"
    and 2: "resolve_hits c ys (bs1, ba1) = Inr st'"
    by (auto simp: st split: sum.splits)
  show ?case
  proof (cases "h = y")
    case True
    then show ?thesis using resolve_hit_cases [OF 1] by simp
  next
    case False
    then show ?thesis using Cons.IH [OF 2] Cons.prems(2) by simp
  qed
qed

lemma resolve_hit_succeeds:
  assumes "call_of c h = Inr n"
  shows "\<exists>st'. resolve_hit c h st = Inr st'"
  using assms
  by (cases st)
     (auto simp: resolve_hit_def call_of_def split: sum.splits prod.splits option.splits)

lemma resolve_hits_succeeds:
  "(\<And>h. h \<in> set ys \<Longrightarrow> \<exists>n. call_of c h = Inr n) \<Longrightarrow> \<exists>st'. resolve_hits c ys st = Inr st'"
proof (induction ys arbitrary: st)
  case Nil
  then show ?case by simp
next
  case (Cons y ys)
  obtain n where "call_of c y = Inr n" using Cons.prems [of y] by auto
  then obtain st1 where 1: "resolve_hit c y st = Inr st1"
    using resolve_hit_succeeds by blast
  obtain st' where "resolve_hits c ys st1 = Inr st'"
    using Cons.IH [of st1] Cons.prems by auto
  then show ?case using 1 by simp
qed


lemma map_of_append_hit:
  "map_of (append_hit l h d) =
     (map_of d)(l \<mapsto> (case map_of d l of None \<Rightarrow> [h] | Some g \<Rightarrow> g @ [h]))"
  by (induction l h d rule: append_hit.induct) auto

lemma keys_append_hit: "fst ` set (append_hit l h d) = insert l (fst ` set d)"
  by (induction l h d rule: append_hit.induct) auto

lemma distinct_append_hit:
  "distinct (map fst d) \<Longrightarrow> distinct (map fst (append_hit l h d))"
proof (induction l h d rule: append_hit.induct)
  case (1 l h)
  then show ?case by simp
next
  case (2 l h k hs d)
  have "k \<notin> fst ` set (append_hit l h d)" if "k \<noteq> l"
    using that 2 by (simp add: keys_append_hit)
  then show ?case using 2 by auto
qed

lemma groups_inv_step:
  assumes "groups_inv xs d"
  shows "groups_inv (xs @ [h]) (append_hit (locus_of h) h d)"
  unfolding groups_inv_def
proof (intro conjI allI)
  show "distinct (map fst (append_hit (locus_of h) h d))"
    using assms by (simp add: groups_inv_def distinct_append_hit)
next
  fix l
  have m: "map_of d l = (if hits_of l xs = [] then None else Some (hits_of l xs))" for l
    using assms by (simp add: groups_inv_def)
  show "map_of (append_hit (locus_of h) h d) l =
          (if hits_of l (xs @ [h]) = [] then None else Some (hits_of l (xs @ [h])))"
    by (simp add: map_of_append_hit m)
qed

lemma groups_inv_loop:
  "group_hits ys d = Inr d' \<Longrightarrow> groups_inv xs d \<Longrightarrow> groups_inv (xs @ ys) d'"
proof (induction ys arbitrary: xs d)
  case Nil
  then show ?case by simp
next
  case (Cons h ys)
  from Cons.prems(1) have 1: "group_hits ys (append_hit (locus_of h) h d) = Inr d'"
    by (auto simp: locus_of_def split: sum.splits prod.splits)
  have "groups_inv ((xs @ [h]) @ ys) d'"
    using Cons.IH [OF 1 groups_inv_step [OF Cons.prems(2)]] .
  then show ?case by simp
qed

lemma group_hits_succeeds:
  "(\<And>h. h \<in> set ys \<Longrightarrow> \<exists>a. get_allele_and_locus h = Inr (a, locus_of h)) \<Longrightarrow>
     \<exists>d'. group_hits ys d = Inr d'"
proof (induction ys arbitrary: d)
  case Nil
  then show ?case by simp
next
  case (Cons h ys)
  obtain a where a: "get_allele_and_locus h = Inr (a, locus_of h)"
    using Cons.prems [of h] by auto
  obtain d' where "group_hits ys (append_hit (locus_of h) h d) = Inr d'"
    using Cons.IH [of "append_hit (locus_of h) h d"] Cons.prems by auto
  then show ?case using a by simp
qed

lemma best_hits_spec:
  "(\<And>l g. (l, g) \<in> set d \<Longrightarrow> g \<noteq> []) \<Longrightarrow>
     \<exists>kept. best_hits d = Inr kept \<and> list_all2 (\<lambda>e b. first_best (snd e) = Some b) d kept"
proof (induction d)
  case Nil
  then show ?case by simp
next
  case (Cons e d)
  obtain l g where e: "e = (l, g)" by (cases e)
  have g: "g \<noteq> []" using Cons.prems [of l g] e by simp
  obtain b rest where s: "sorted_best_first g = b # rest" and b: "first_best g = Some b"
    using sorted_best_first_hd [of g] g by (cases "sorted_best_first g") auto
  obtain kept where k: "best_hits d = Inr kept"
    "list_all2 (\<lambda>e b. first_best (snd e) = Some b) d kept"
    using Cons.IH Cons.prems by auto
  show ?case
    using s b k by (simp add: e)
qed

lemma kept_hits_of:
  "list_all2 (\<lambda>e b. first_best (snd e) = Some b \<and> locus_of b = fst e) d kept \<Longrightarrow>
   distinct (map fst d) \<Longrightarrow>
     (map_of d l = None \<longrightarrow> hits_of l kept = []) \<and>
     (\<forall>g. map_of d l = Some g \<longrightarrow> (\<exists>b. first_best g = Some b \<and> hits_of l kept = [b]))"
proof (induction d kept rule: list_all2_induct)
  case Nil
  then show ?case by simp
next
  case (Cons e d b kept)
  obtain k g where e: "e = (k, g)" by (cases e)
  have ih: "(map_of d l = None \<longrightarrow> hits_of l kept = []) \<and>
     (\<forall>g. map_of d l = Some g \<longrightarrow> (\<exists>b. first_best g = Some b \<and> hits_of l kept = [b]))"
    using Cons.IH Cons.prems by simp
  have b: "first_best g = Some b" "locus_of b = k"
    using Cons.hyps(1) e by simp_all
  show ?case
  proof (cases "k = l")
    case True
    then have "map_of d l = None"
      using Cons.prems e by (simp add: map_of_eq_None_iff)
    then have "hits_of l kept = []" using ih by simp
    then show ?thesis using True b e by simp
  next
    case False
    then show ?thesis using ih b e by simp
  qed
qed

lemma keep_only_one_hit_per_locus_spec:
  assumes "\<And>h. h \<in> set hits \<Longrightarrow> \<exists>a. get_allele_and_locus h = Inr (a, locus_of h)"
  shows "\<exists>kept. keep_only_one_hit_per_locus hits = Inr kept
           \<and> (\<forall>l. first_best (hits_of l kept) = first_best (hits_of l hits))
           \<and> (\<forall>b \<in> set kept. first_best (hits_of (locus_of b) hits) = Some b)"
proof -
  obtain d where d: "group_hits hits [] = Inr d"
    using group_hits_succeeds [of hits "[]"] assms by auto
  have "groups_inv [] []" by (simp add: groups_inv_def)
  then have "groups_inv ([] @ hits) d" by (rule groups_inv_loop [OF d])
  then have dist: "distinct (map fst d)"
    and m: "\<And>l. map_of d l = (if hits_of l hits = [] then None else Some (hits_of l hits))"
    by (simp_all add: groups_inv_def)
  have entry: "g = hits_of l hits \<and> g \<noteq> []" if "(l, g) \<in> set d" for l g
  proof -
    have "map_of d l = Some g" using that dist by simp
    then show ?thesis using m [of l] by (auto split: if_splits)
  qed
  obtain kept where k: "best_hits d = Inr kept"
    and rel: "list_all2 (\<lambda>e b. first_best (snd e) = Some b) d kept"
    using best_hits_spec [of d] entry by blast
  have rel': "list_all2 (\<lambda>e b. first_best (snd e) = Some b \<and> locus_of b = fst e) d kept"
  proof (rule list.rel_mono_strong [OF rel])
    fix e b
    assume e: "e \<in> set d" and b: "first_best (snd e) = Some b"
    have "snd e = hits_of (fst e) hits" using entry [of "fst e" "snd e"] e by simp
    moreover have "b \<in> set (snd e)" using b by (rule first_best_mem)
    ultimately have "locus_of b = fst e" by (simp add: hits_of_def)
    then show "first_best (snd e) = Some b \<and> locus_of b = fst e" using b by simp
  qed
  have same: "first_best (hits_of l kept) = first_best (hits_of l hits)" for l
  proof (cases "hits_of l hits = []")
    case True
    then have "map_of d l = None" using m [of l] by simp
    then have "hits_of l kept = []" using kept_hits_of [OF rel' dist, of l] by simp
    then show ?thesis using True by simp
  next
    case False
    then have "map_of d l = Some (hits_of l hits)" using m [of l] by simp
    then obtain b where "first_best (hits_of l hits) = Some b" "hits_of l kept = [b]"
      using kept_hits_of [OF rel' dist, of l] by auto
    then show ?thesis by simp
  qed
  have each: "first_best (hits_of (locus_of b) hits) = Some b" if bk: "b \<in> set kept" for b
  proof -
    obtain i where i: "i < length kept" "kept ! i = b"
      using bk by (auto simp: in_set_conv_nth)
    have len: "length d = length kept"
      using rel' by (rule list_all2_lengthD)
    have "first_best (snd (d ! i)) = Some (kept ! i) \<and> locus_of (kept ! i) = fst (d ! i)"
      using list_all2_nthD2 [OF rel' i(1)] .
    then obtain e where e: "e \<in> set d" "first_best (snd e) = Some b" "locus_of b = fst e"
      using i len by (metis nth_mem)
    have "snd e = hits_of (fst e) hits" using entry [of "fst e" "snd e"] e(1) by simp
    then show ?thesis using e by simp
  qed
  show ?thesis
    using d k same each by (auto simp: keep_only_one_hit_per_locus_def)
qed

lemma reducer_refines_resolver:
  assumes "get_best_allele_per_locus hits c = Inr ba"
  shows "\<exists>kept ba'. keep_only_one_hit_per_locus hits = Inr kept
           \<and> get_best_allele_per_locus kept c = Inr ba' \<and> map_of ba' = map_of ba"
proof -
  obtain bs where r: "resolve_hits c hits ([], []) = Inr (bs, ba)"
    using assms by (auto simp: get_best_allele_per_locus_def split: sum.splits)
  have inv: "best_inv c hits (bs, ba)"
    using best_inv_loop [OF r best_inv_empty] by simp
  obtain kept where k: "keep_only_one_hit_per_locus hits = Inr kept"
    and same: "\<And>l. first_best (hits_of l kept) = first_best (hits_of l hits)"
    and each: "\<And>b. b \<in> set kept \<Longrightarrow> first_best (hits_of (locus_of b) hits) = Some b"
    using keep_only_one_hit_per_locus_spec [of hits] resolve_hits_parsed [OF r] by blast
  have "\<exists>n. call_of c b = Inr n" if "b \<in> set kept" for b
    using inv each [OF that] by (auto simp: best_inv_iff)
  then obtain bs' ba' where r': "resolve_hits c kept ([], []) = Inr (bs', ba')"
    using resolve_hits_succeeds [of kept c "([], [])"] by auto
  have inv': "best_inv c kept (bs', ba')"
    using best_inv_loop [OF r' best_inv_empty] by simp
  have "map_of ba' l = map_of ba l" for l
  proof (cases "first_best (hits_of l hits)")
    case None
    then show ?thesis using inv inv' same [of l] by (simp add: best_inv_iff)
  next
    case (Some b)
    then obtain n where n: "call_of c b = Inr n" "map_of ba l = Some n"
      using inv by (auto simp: best_inv_iff)
    have "first_best (hits_of l kept) = Some b"
      using Some same [of l] by simp
    then obtain n' where n': "call_of c b = Inr n'" "map_of ba' l = Some n'"
      using inv' by (auto simp: best_inv_iff)
    show ?thesis using n n' by simp
  qed
  then have "map_of ba' = map_of ba" by (rule ext)
  then show ?thesis
    using k r' by (simp add: get_best_allele_per_locus_def)
qed


lemma collect_calls_cong:
  "map_of ba = map_of ba' \<Longrightarrow> collect_calls ba header = collect_calls ba' header"
  by (induction header) simp_all

lemma match_st_cong:
  "map_of ba = map_of ba' \<Longrightarrow>
     match_st db info_arg ba max_missing report_incomplete
       = match_st db info_arg ba' max_missing report_incomplete"
  by (cases db) (simp add: match_st_def collect_calls_cong [of ba ba'])

text \<open>
  Against C6 as stated. The resolver splits the name of every hit it stores, also of
  one that a later hit of the same locus replaces; the reducer drops such a hit before
  the resolver sees it. With a first hit whose name has no underscore, multi-hit mode
  raises and the default mode returns a label.
\<close>

theorem multi_hit_counterexample:
  "mlst_blast ex_db ''yes'' [''a.fasta''] [exact_hit ''gapA'' 800, exact_hit ''gapA_1'' 900]
      3 False False True = Inl IndexError
   \<and> mlst_blast ex_db ''yes'' [''a.fasta''] [exact_hit ''gapA'' 800, exact_hit ''gapA_1'' 900]
      3 False False False = Inr (''10-2LV'', [''1'', ''-'', ''-''], ''CG10'')"
  by code_simp

text \<open>
  C6, as amended. Whenever the run in multi-hit mode returns a result, the run with
  the Hit Reducer applied first returns the same label, annotated allele list and
  info string; and when the resolver can store the call of every hit (each allele name
  has a second underscore-separated field, and truncation checking is off), the two
  runs agree whatever the later stages do.
\<close>

theorem multi_hit_mode_same_assignment:
  "(mlst_blast database info_arg assemblies hits max_missing check_for_truncation
        report_incomplete True = Inr r \<longrightarrow>
    mlst_blast database info_arg assemblies hits max_missing check_for_truncation
        report_incomplete False = Inr r)
   \<and> (list_all (\<lambda>h. \<not> isl (call_of check_for_truncation h)) hits \<longrightarrow>
        mlst_blast database info_arg assemblies hits max_missing check_for_truncation
            report_incomplete True
        = mlst_blast database info_arg assemblies hits max_missing check_for_truncation
            report_incomplete False)"
proof -
  have core: "mlst_blast database info_arg assemblies hits max_missing check_for_truncation
                report_incomplete False
              = mlst_blast database info_arg assemblies hits max_missing check_for_truncation
                report_incomplete True"
    if ok: "get_best_allele_per_locus hits check_for_truncation = Inr ba" for ba
  proof -
    obtain kept ba' where k: "keep_only_one_hit_per_locus hits = Inr kept"
      and r: "get_best_allele_per_locus kept check_for_truncation = Inr ba'"
      and m: "map_of ba' = map_of ba"
      using reducer_refines_resolver [OF ok] by blast
    show ?thesis
      using k r ok match_st_cong [OF m]
      by (simp add: mlst_blast_def split: sum.splits list.splits)
  qed
  have first: "mlst_blast database info_arg assemblies hits max_missing check_for_truncation
        report_incomplete False = Inr r"
    if multi: "mlst_blast database info_arg assemblies hits max_missing check_for_truncation
        report_incomplete True = Inr r"
  proof -
    obtain ba where "get_best_allele_per_locus hits check_for_truncation = Inr ba"
      using multi by (auto simp: mlst_blast_def split: sum.splits list.splits)
    then show ?thesis using core multi by simp
  qed
  have second: "mlst_blast database info_arg assemblies hits max_missing check_for_truncation
            report_incomplete True
        = mlst_blast database info_arg assemblies hits max_missing check_for_truncation
            report_incomplete False"
    if all: "list_all (\<lambda>h. \<not> isl (call_of check_for_truncation h)) hits"
  proof -
    have "\<exists>n. call_of check_for_truncation h = Inr n" if "h \<in> set hits" for h
      using all that by (cases "call_of check_for_truncation h") (auto simp: list_all_iff)
    then obtain st where "resolve_hits check_for_truncation hits ([], []) = Inr st"
      using resolve_hits_succeeds [of hits check_for_truncation "([], [])"] by auto
    then obtain ba where "get_best_allele_per_locus hits check_for_truncation = Inr ba"
      by (cases st) (simp add: get_best_allele_per_locus_def)
    then show ?thesis using core by simp
  qed
  show ?thesis using first second by blast
qed



theorem multi_hit_mode_same_assignment_witness:
  "mlst_blast ex_db ''yes'' [''a.fasta'']
      [exact_hit ''gapA_1'' 900, exact_hit ''gapA_2'' 900, inexact_hit ''infB_3'' 800,
       exact_hit ''infB_2'' 950, exact_hit ''mdh_3'' 700]
      3 False False False
    = Inr (''10'', [''1'', ''2'', ''3''], ''CG10'')
   \<and> mlst_blast ex_db ''yes'' [''a.fasta'']
      [exact_hit ''gapA_1'' 900, exact_hit ''gapA_2'' 900, inexact_hit ''infB_3'' 800,
       exact_hit ''infB_2'' 950, exact_hit ''mdh_3'' 700]
      3 False False True
    = mlst_blast ex_db ''yes'' [''a.fasta'']
      [exact_hit ''gapA_1'' 900, exact_hit ''gapA_2'' 900, inexact_hit ''infB_3'' 800,
       exact_hit ''infB_2'' 950, exact_hit ''mdh_3'' 700]
      3 False False False"
proof -
  let ?hits = "[exact_hit ''gapA_1'' 900, exact_hit ''gapA_2'' 900, inexact_hit ''infB_3'' 800,
       exact_hit ''infB_2'' 950, exact_hit ''mdh_3'' 700]"
  let ?r = "(''10'', [''1'', ''2'', ''3''], ''CG10'')"
  have 1: "mlst_blast ex_db ''yes'' [''a.fasta''] ?hits 3 False False True = Inr ?r"
    by code_simp
  have 2: "list_all (\<lambda>h. \<not> isl (call_of False h)) ?hits"
    by code_simp
  note t = multi_hit_mode_same_assignment
      [of ex_db "''yes''" "[''a.fasta'']" ?hits 3 False False ?r]
  have a: "mlst_blast ex_db ''yes'' [''a.fasta''] ?hits 3 False False False = Inr ?r"
    by (rule mp [OF conjunct1 [OF t] 1])
  have b: "mlst_blast ex_db ''yes'' [''a.fasta''] ?hits 3 False False True
         = mlst_blast ex_db ''yes'' [''a.fasta''] ?hits 3 False False False"
    by (rule mp [OF conjunct2 [OF t] 2])
  show ?thesis
    by (rule conjI [OF a b])
qed

section \<open>When the assignment returns\<close>

text \<open>
  With truncation checking off, the assignment returns for every lookup table that
  has at least one profile, integer alleles and canonical ST ids, once the resolver
  can store a numeric call for every hit.
\<close>

lemma parses_zero: "parses ''0''"
  by code_simp

lemma collect_calls_numeric:
  assumes "list_all (\<lambda>(l, a). numeric_call a) best_allele"
    and "collect_calls best_allele header = (best_st, annotated, mismatch, missing)"
  shows "list_all parses (map zero_missing best_st) \<and> list_all parses (map zero_inexact annotated)"
  using assms(2)
proof (induction header arbitrary: best_st annotated mismatch missing)
  case Nil
  then show ?case by simp
next
  case (Cons l ls)
  obtain bs an mm ms where r: "collect_calls best_allele ls = (bs, an, mm, ms)"
    by (cases "collect_calls best_allele ls") auto
  have ih: "list_all parses (map zero_missing bs) \<and> list_all parses (map zero_inexact an)"
    using Cons.IH [OF r] .
  show ?case
  proof (cases "map_of best_allele l")
    case None
    then have "best_st = ''-'' # bs" "annotated = ''-'' # an"
      using Cons.prems r by simp_all
    moreover have "zero_missing ''-'' = ''0''" "zero_inexact ''-'' = ''0''"
      by (simp_all add: zero_missing_def zero_inexact_def)
    ultimately show ?thesis
      using ih parses_zero by simp
  next
    case (Some a)
    then have "(l, a) \<in> set best_allele" by (rule map_of_SomeD)
    then have n: "numeric_call a"
      using assms(1) by (auto simp: list_all_iff)
    have "best_st = re_sub_trunc (filter (\<lambda>c. c \<noteq> CHR ''*'') a) # bs" "annotated = a # an"
      using Cons.prems r Some by simp_all
    then show ?thesis
      using ih n by (simp add: numeric_call_def)
  qed
qed

lemma match_st_returns:
  assumes "well_formed_table alleles_to_st"
    and "list_all (\<lambda>(l, a). numeric_call a) best_allele"
  shows "\<exists>r. match_st (st_names, alleles_to_st, st_to_info, header) info_arg best_allele
               max_missing report_incomplete = Inr r"
proof -
  obtain best_st annotated mismatch missing where
    c: "collect_calls best_allele header = (best_st, annotated, mismatch, missing)"
    by (cases "collect_calls best_allele header") auto
  have p: "list_all parses (map zero_missing best_st)" "list_all parses (map zero_inexact annotated)"
    using collect_calls_numeric [OF assms(2) c] by simp_all
  obtain st d m where "get_closest_locus_variant best_st annotated alleles_to_st = Inr (st, d, m)"
    using get_closest_locus_variant_total [OF assms(1) p] by (metis prod_cases3)
  then have "\<exists>bst mm. lookup_st alleles_to_st best_st annotated mismatch max_missing = Inr (bst, mm)"
    by (cases "map_of alleles_to_st (join_comma best_st)") (simp_all add: lookup_st_def)
  then show ?thesis
    using match_st_eq [OF c] by blast
qed

lemma mlst_blast_returns:
  assumes "load_st_database database info_arg = Inr (st_names, alleles_to_st, st_to_info, header)"
    and "well_formed_table alleles_to_st"
    and "assemblies \<noteq> []"
    and "list_all (\<lambda>h. \<not> isl (call_of False h)) hits"
    and "\<And>hits' best_allele.
           (if \<not> allow_multiple then keep_only_one_hit_per_locus hits else Inr hits) = Inr hits' \<Longrightarrow>
           get_best_allele_per_locus hits' False = Inr best_allele \<Longrightarrow>
           list_all (\<lambda>(l, a). numeric_call a) best_allele"
  shows "\<exists>r. mlst_blast database info_arg assemblies hits max_missing False
               report_incomplete allow_multiple = Inr r"
proof -
  have "\<exists>n. call_of False h = Inr n" if "h \<in> set hits" for h
    using assms(4) that by (cases "call_of False h") (auto simp: list_all_iff)
  then obtain st where "resolve_hits False hits ([], []) = Inr st"
    using resolve_hits_succeeds [of hits False "([], [])"] by auto
  then obtain ba where ba: "get_best_allele_per_locus hits False = Inr ba"
    by (cases st) (simp add: get_best_allele_per_locus_def)
  obtain kept ba' where k: "keep_only_one_hit_per_locus hits = Inr kept"
    and r: "get_best_allele_per_locus kept False = Inr ba'"
    using reducer_refines_resolver [OF ba] by blast
  show ?thesis
  proof (cases allow_multiple)
    case True
    have "list_all (\<lambda>(l, a). numeric_call a) ba"
      using assms(5) [of hits ba] True ba by simp
    then show ?thesis
      using mlst_blast_eq [OF assms(1,3) _ ba, of allow_multiple] True
        match_st_returns [OF assms(2)] by simp
  next
    case False
    have "list_all (\<lambda>(l, a). numeric_call a) ba'"
      using assms(5) [of kept ba'] False k r by simp
    then show ?thesis
      using mlst_blast_eq [OF assms(1,3) _ r, of allow_multiple] False k
        match_st_returns [OF assms(2)] by simp
  qed
qed

text \<open>
  C9. The claim is that a valid database and valid hits never make the assignment
  raise. Two inputs on which it raises: three exact hits of ST 10 with truncation
  checking on (the same hits give ST 10 with it off), and a profile file that has a
  header and no rows, where the nearest-variant search takes the minimum of an empty
  list.
\<close>

theorem raises_on_valid_input:
  "mlst_blast ex_db ''yes'' [''a.fasta'']
     [exact_hit ''gapA_1'' 900, exact_hit ''infB_2'' 900, exact_hit ''mdh_3'' 900]
     3 True False False = Inl TypeError
   \<and> mlst_blast ex_db ''yes'' [''a.fasta'']
     [exact_hit ''gapA_1'' 900, exact_hit ''infB_2'' 900, exact_hit ''mdh_3'' 900]
     3 False False False = Inr (''10'', [''1'', ''2'', ''3''], ''CG10'')
   \<and> mlst_blast [tsv_line [''ST'', ''gapA'', ''infB'']] ''no'' [''a.fasta''] [] 2 False False False
     = Inl ValueError"
  by code_simp

end
